theory Spec2Isabelle
  imports Main "HOL-Library.AList"
begin

section \<open>Data model of the analyzer\<close>

text \<open>
  The analyzer (\<^verbatim>\<open>src/unnamed/part_003\<close>) keys everything by URL strings. Objects that the
  TypeScript code shares by reference (promises, scanned documents, visited sets, cache
  contexts, analyzed documents) are addresses into explicit stores; a JavaScript
  \<^verbatim>\<open>Map\<close> is an association list in insertion order with \<^const>\<open>map_of\<close> as \<^verbatim>\<open>get\<close>.
  Logging (\<^verbatim>\<open>console.log\<close>) and the telemetry tracker do not influence any result and
  are left out.
\<close>

type_synonym url = string
type_synonym pid = nat
type_synonym sd_ref = nat
type_synonym vid = nat
type_synonym cid = nat
type_synonym doc_ref = nat

record source_position =
  line :: nat
  column :: nat

record source_range =
  sr_file :: string
  range_start :: source_position
  range_end :: source_position

datatype severity = ERROR | WARNING | INFO

record warning =
  code :: string
  message :: string
  sourceRange :: "source_range option"
  severity :: severity

text \<open>Values that are thrown, or with which a promise is rejected.\<close>

datatype thrown =
    NoKnownParserError string
  | WarningCarryingException warning
  | Error string
  | Rejection string

text \<open>The text that \<^verbatim>\<open>${error.message || error}\<close> interpolates.\<close>

fun thrown_text :: "thrown \<Rightarrow> string" where
  "thrown_text (NoKnownParserError m) = (if m = [] then ''Error'' else m)"
| "thrown_text (WarningCarryingException x) = (if message x = [] then ''Error'' else message x)"
| "thrown_text (Error m) = (if m = [] then ''Error'' else m)"
| "thrown_text (Rejection s) = s"

record location_offset =
  lo_line :: nat
  lo_col :: nat
  lo_filename :: "string option"

record inline_info =
  ii_locationOffset :: location_offset
  ii_astNode :: nat

record parsed_document =
  pd_type :: string
  pd_url :: url
  pd_contents :: string
  pd_isInline :: bool
  pd_inlineInfo :: "inline_info option"

datatype scanned_feature =
    ScannedImport string url "source_range option" "source_range option" "sd_ref option"
  | ScannedInlineDocument string string location_offset "string option" nat "sd_ref option"
  | ScannedElement "string option"
  | ScannedFeature string

text \<open>
  \<^const>\<open>ScannedImport\<close> carries \<^verbatim>\<open>type\<close>, \<^verbatim>\<open>url\<close>, \<^verbatim>\<open>urlSourceRange\<close>, \<^verbatim>\<open>sourceRange\<close> and the
  mutable slot \<^verbatim>\<open>scannedDocument\<close>; \<^const>\<open>ScannedInlineDocument\<close> carries \<^verbatim>\<open>type\<close>,
  \<^verbatim>\<open>contents\<close>, \<^verbatim>\<open>locationOffset\<close>, \<^verbatim>\<open>attachedComment\<close>, \<^verbatim>\<open>astNode\<close> and the slot
  \<^verbatim>\<open>scannedDocument\<close>; \<^const>\<open>ScannedElement\<close> carries the HTML comment applied to it;
  \<^const>\<open>ScannedFeature\<close> is any other feature.
\<close>

fun slot_assign :: "scanned_feature \<Rightarrow> sd_ref \<Rightarrow> scanned_feature" where
  "slot_assign (ScannedImport t u usr sr _) d = ScannedImport t u usr sr (Some d)"
| "slot_assign (ScannedInlineDocument t c lo ac an _) d =
     ScannedInlineDocument t c lo ac an (Some d)"
| "slot_assign f d = f"

fun slot_value :: "scanned_feature \<Rightarrow> sd_ref option" where
  "slot_value (ScannedImport t u usr sr d) = d"
| "slot_value (ScannedInlineDocument t c lo ac an d) = d"
| "slot_value f = None"

fun applyHtmlComment :: "scanned_feature \<Rightarrow> string option \<Rightarrow> scanned_feature" where
  "applyHtmlComment (ScannedElement _) c = ScannedElement c"
| "applyHtmlComment f c = f"

record scanned_document =
  document :: parsed_document
  features :: "scanned_feature list"
  warnings :: "warning list"

definition sd_url :: "scanned_document \<Rightarrow> url" where
  "sd_url d = pd_url (document d)"

definition isInline :: "scanned_document \<Rightarrow> bool" where
  "isInline d = pd_isInline (document d)"

text \<open>
  An analyzed \<^verbatim>\<open>Document\<close>: its base scanned document, its analyzer context, and its
  \<^verbatim>\<open>url\<close>, which is the one of its base.
\<close>

record analyzed_document =
  doc_base :: sd_ref
  doc_analyzer :: cid
  doc_url :: url

subsection \<open>The cache\<close>

text \<open>
  The class \<^verbatim>\<open>AnalysisCache\<close> is imported from \<^verbatim>\<open>./analysis-cache\<close>; its six maps are
  the ones \<^verbatim>\<open>AnalyzerCacheContext\<close> reads and writes.
\<close>

record analysis_cache =
  parsedDocumentPromises :: "(url \<times> pid) list"
  scannedDocumentPromises :: "(url \<times> pid) list"
  dependenciesScanned :: "(url \<times> pid) list"
  analyzedDocumentPromises :: "(url \<times> pid) list"
  scannedDocuments :: "(url \<times> sd_ref) list"
  analyzedDocuments :: "(url \<times> doc_ref) list"

definition new_AnalysisCache :: analysis_cache where
  "new_AnalysisCache =
     \<lparr>parsedDocumentPromises = [], scannedDocumentPromises = [], dependenciesScanned = [],
      analyzedDocumentPromises = [], scannedDocuments = [], analyzedDocuments = []\<rparr>"

definition has :: "('k \<times> 'v) list \<Rightarrow> 'k \<Rightarrow> bool" where
  "has m k = (map_of m k \<noteq> None)"

subsection \<open>Options and the cache context\<close>

type_synonym lazy_edge_map = "(url \<times> url list) list"

datatype parser =
    HtmlParser
  | JavaScriptParser string
  | CssParser
  | JsonParser
  | OtherParser nat

datatype scanner =
    HtmlImportScanner "lazy_edge_map option"
  | HtmlScriptScanner
  | HtmlStyleScanner
  | DomModuleScanner
  | CssImportScanner
  | HtmlCustomElementReferenceScanner
  | PolymerElementScanner
  | BehaviorScanner
  | VanillaElementScanner
  | OtherScanner nat

type_synonym scanner_table = "(string \<times> scanner list) list"

text \<open>
  The loader answers \<^verbatim>\<open>canLoad\<close> at once; \<^verbatim>\<open>load\<close> gives a promise, and
  \<^const>\<open>Inl\<close>/\<^const>\<open>Inr\<close> is what that promise is eventually rejected or fulfilled with.
\<close>

record url_loader =
  canLoad :: "url \<Rightarrow> bool"
  loader_load :: "url \<Rightarrow> thrown + string"

record url_resolver =
  canResolve :: "url \<Rightarrow> bool"
  resolve :: "url \<Rightarrow> url"

record options =
  urlLoader :: url_loader
  urlResolver :: "url_resolver option"
  opt_parsers :: "(string \<times> parser) list option"
  opt_scanners :: "scanner_table option"
  opt_lazyEdges :: "lazy_edge_map option"

record cache_context =
  c_parsers :: "(string \<times> parser) list"
  c_lazyEdges :: "lazy_edge_map option"
  c_scanners :: scanner_table
  c_loader :: url_loader
  c_resolver :: "url_resolver option"
  c_cache :: analysis_cache
  c_generation :: nat

text \<open>The field initialiser of \<^verbatim>\<open>_parsers\<close> (lines 131-136).\<close>

definition default_parsers :: "(string \<times> parser) list" where
  "default_parsers =
     [(''html'', HtmlParser),
      (''js'', JavaScriptParser ''script''),
      (''css'', CssParser),
      (''json'', JsonParser)]"

definition getDefaultScanners :: "lazy_edge_map option \<Rightarrow> scanner_table" where
  "getDefaultScanners lazyEdges =
     [(''html'',
       [HtmlImportScanner lazyEdges, HtmlScriptScanner, HtmlStyleScanner, DomModuleScanner,
        CssImportScanner, HtmlCustomElementReferenceScanner]),
      (''js'', [PolymerElementScanner, BehaviorScanner, VanillaElementScanner])]"

text \<open>The constructor of \<^verbatim>\<open>AnalyzerCacheContext\<close> (lines 175-182).\<close>

definition new_AnalyzerCacheContext :: "options \<Rightarrow> cache_context" where
  "new_AnalyzerCacheContext opts =
     \<lparr>c_parsers = (case opt_parsers opts of Some p \<Rightarrow> p | None \<Rightarrow> default_parsers),
      c_lazyEdges = opt_lazyEdges opts,
      c_scanners = (case opt_scanners opts of Some s \<Rightarrow> s
                    | None \<Rightarrow> getDefaultScanners (opt_lazyEdges opts)),
      c_loader = urlLoader opts,
      c_resolver = urlResolver opts,
      c_cache = new_AnalysisCache,
      c_generation = 0\<rparr>"

definition resolveUrl :: "cache_context \<Rightarrow> url \<Rightarrow> url" where
  "resolveUrl this u =
     (case c_resolver this of
        Some r \<Rightarrow> if canResolve r u then resolve r u else u
      | None \<Rightarrow> u)"

text \<open>\<^verbatim>\<open>_fork\<close> (lines 311-323): a copy with the given cache and the next generation.\<close>

definition fork :: "cache_context \<Rightarrow> analysis_cache \<Rightarrow> cache_context" where
  "fork this cache =
     (new_AnalyzerCacheContext
        \<lparr>urlLoader = c_loader this, urlResolver = c_resolver this,
         opt_parsers = Some (c_parsers this), opt_scanners = Some (c_scanners this),
         opt_lazyEdges = c_lazyEdges this\<rparr>)
     \<lparr>c_cache := cache, c_generation := c_generation this + 1\<rparr>"

definition clearCaches :: "cache_context \<Rightarrow> cache_context" where
  "clearCaches this = fork this new_AnalysisCache"

subsection \<open>Parsers and scanners\<close>

text \<open>
  The parser and scanner classes, the function \<^verbatim>\<open>scan\<close> of \<^verbatim>\<open>./scanning/scan\<close> and
  \<^verbatim>\<open>Document.resolve\<close> are outside the analyzer; what they compute is a parameter.
  \<^verbatim>\<open>parser_parse\<close> is \<^verbatim>\<open>parser.parse(contents, url, inlineInfo)\<close>, with \<^const>\<open>Inl\<close> for a throw;
  \<^verbatim>\<open>scan_fn\<close> is what the promise of \<^verbatim>\<open>scan(document, scanners)\<close> settles to;
  \<^verbatim>\<open>resolve_lookups\<close> lists the URLs for which \<^verbatim>\<open>Document.resolve\<close> asks the analyzer
  (\<^verbatim>\<open>_getDocument\<close>) while it resolves the features of a scanned document;
  \<^verbatim>\<open>error_stack\<close> is the text that the engine gives as the \<^verbatim>\<open>stack\<close> property of a
  thrown value.
\<close>

record world =
  parser_parse :: "parser \<Rightarrow> string \<Rightarrow> url \<Rightarrow> inline_info option \<Rightarrow> thrown + parsed_document"
  scan_fn :: "parsed_document \<Rightarrow> scanner list \<Rightarrow> thrown + scanned_feature list"
  resolve_lookups :: "scanned_document \<Rightarrow> url list"
  error_stack :: "thrown \<Rightarrow> string"

text \<open>
  \<^verbatim>\<open>_parseContents\<close> (lines 575-590). The message of line 588 is the URL and a colon,
  a line break and a space, and the stack of the error that the parser threw.
\<close>

definition parseContents ::
  "world \<Rightarrow> cache_context \<Rightarrow> string \<Rightarrow> string \<Rightarrow> url \<Rightarrow> inline_info option \<Rightarrow> thrown + parsed_document"
where
  "parseContents w this type contents u inlineInfo =
     (case map_of (c_parsers this) type of
        None \<Rightarrow> Inl (NoKnownParserError (''No parser for for file type '' @ type))
      | Some p \<Rightarrow>
          (case parser_parse w p contents u inlineInfo of
             Inr d \<Rightarrow> Inr d
           | Inl (WarningCarryingException x) \<Rightarrow> Inl (WarningCarryingException x)
           | Inl e \<Rightarrow>
               Inl (Error (''Error parsing '' @ u @ '':\<newline> '' @ error_stack w e))))"

text \<open>The scanners that \<^verbatim>\<open>_getScannedFeatures\<close> (lines 592-599) finds for a document type.\<close>

definition scanners_for :: "cache_context \<Rightarrow> string \<Rightarrow> scanner list option" where
  "scanners_for this type = map_of (c_scanners this) type"


subsection \<open>The store\<close>

text \<open>
  Everything the analyzer mutates: the cache contexts (the \<^verbatim>\<open>Analyzer\<close> object holds the
  address of its current one), the scanned documents with their warning arrays and
  feature slots, the visited sets, every \<^verbatim>\<open>Document\<close> constructed so far (in order of
  construction), and for every promise whether and how it is settled. A promise
  \<^verbatim>\<open>p < next_pid\<close> without an entry in \<^verbatim>\<open>settled\<close> is pending. \<^verbatim>\<open>origin\<close> records where
  a promise comes from: the call of an \<^verbatim>\<open>async\<close> function whose result it is, or an
  operation outside the analyzer together with the outcome that operation will have.
\<close>

datatype val =
    Undefined
  | Null
  | Visited
  | Str string
  | Parsed parsed_document
  | Scanned sd_ref
  | Document doc_ref
  | Features "scanned_feature list"

datatype outcome = Fulfilled val | Rejected thrown

datatype call =
    Analyzer_analyze url "string option"
  | Analyzer_load url "string option"
  | Analyze cid url "string option"
  | Analyze_async cid url url "string option"
  | Scan cid url "string option" "vid option"
  | Scan_async cid url "string option"
  | ScanInlineSource cid string string url vid "inline_info option" "string option"
  | ScanDocument cid parsed_document "string option"
  | ScanDependenciesOfToplevelDoc cid val vid
  | ScanDependencies cid sd_ref vid
  | ScanDependency cid sd_ref nat vid
  | ScanInlineDocument cid sd_ref nat parsed_document sd_ref vid
  | ScanImport cid sd_ref nat sd_ref vid
  | Load cid url "string option"
  | Parse cid url "string option"
  | Parse_async cid url "string option"
  | GetScannedFeatures cid parsed_document

text \<open>
  \<^verbatim>\<open>call\<close> names the \<^verbatim>\<open>async\<close> functions of the analyzer with their arguments. The
  anonymous \<^verbatim>\<open>async\<close> arrows that \<^verbatim>\<open>analyze\<close>, \<^verbatim>\<open>_scan\<close> and \<^verbatim>\<open>_parse\<close> invoke at once
  (\<^const>\<open>Analyze_async\<close>, \<^const>\<open>Scan_async\<close>, \<^const>\<open>Parse_async\<close>) and the \<^verbatim>\<open>async\<close> callback that
  \<^verbatim>\<open>_scanDependencies\<close> maps over the dependencies (\<^const>\<open>ScanDependency\<close>) have names of
  their own. A feature object is addressed by its scanned document and its index
  there; a warnings array by the scanned document that owns it.
\<close>

datatype source = Called call | Outside outcome

record state =
  analyzer :: cid
  contexts :: "cid \<Rightarrow> cache_context option"
  next_cid :: nat
  sdocs :: "sd_ref \<Rightarrow> scanned_document option"
  next_sd :: nat
  visited_sets :: "vid \<Rightarrow> url list option"
  next_vid :: nat
  documents :: "analyzed_document list"
  settled :: "pid \<Rightarrow> outcome option"
  origin :: "pid \<Rightarrow> source option"
  next_pid :: nat
  fuel_exhausted :: bool

definition the_context :: "state \<Rightarrow> cid \<Rightarrow> cache_context" where
  "the_context s this =
     (case contexts s this of Some c \<Rightarrow> c
      | None \<Rightarrow> new_AnalyzerCacheContext
          \<lparr>urlLoader = \<lparr>canLoad = (\<lambda>_. False), loader_load = (\<lambda>_. Inl (Rejection []))\<rparr>,
           urlResolver = None, opt_parsers = None, opt_scanners = None, opt_lazyEdges = None\<rparr>)"

definition the_cache :: "state \<Rightarrow> cid \<Rightarrow> analysis_cache" where
  "the_cache s this = c_cache (the_context s this)"

definition update_cache :: "cid \<Rightarrow> (analysis_cache \<Rightarrow> analysis_cache) \<Rightarrow> state \<Rightarrow> state" where
  "update_cache this f s =
     s\<lparr>contexts := (contexts s)(this \<mapsto> (the_context s this)\<lparr>c_cache := f (the_cache s this)\<rparr>)\<rparr>"

definition the_sdoc :: "state \<Rightarrow> sd_ref \<Rightarrow> scanned_document" where
  "the_sdoc s d =
     (case sdocs s d of Some x \<Rightarrow> x
      | None \<Rightarrow> \<lparr>document = \<lparr>pd_type = [], pd_url = [], pd_contents = [], pd_isInline = True,
                   pd_inlineInfo = None\<rparr>, features = [], warnings = []\<rparr>)"

definition the_feature :: "state \<Rightarrow> sd_ref \<Rightarrow> nat \<Rightarrow> scanned_feature" where
  "the_feature s d i =
     (if i < length (features (the_sdoc s d)) then features (the_sdoc s d) ! i
      else ScannedFeature [])"

definition push_warning :: "sd_ref \<Rightarrow> warning \<Rightarrow> state \<Rightarrow> state" where
  "push_warning d x s =
     s\<lparr>sdocs := (sdocs s)(d \<mapsto> (the_sdoc s d)\<lparr>warnings := warnings (the_sdoc s d) @ [x]\<rparr>)\<rparr>"

definition assign_scannedDocument :: "sd_ref \<Rightarrow> nat \<Rightarrow> sd_ref \<Rightarrow> state \<Rightarrow> state" where
  "assign_scannedDocument d i target s =
     s\<lparr>sdocs := (sdocs s)(d \<mapsto> (the_sdoc s d)
        \<lparr>features := (features (the_sdoc s d))[i := slot_assign (the_feature s d i) target]\<rparr>)\<rparr>"

definition new_ScannedDocument :: "scanned_document \<Rightarrow> state \<Rightarrow> state" where
  "new_ScannedDocument x s = s\<lparr>sdocs := (sdocs s)(next_sd s \<mapsto> x), next_sd := next_sd s + 1\<rparr>"

definition new_Set :: "state \<Rightarrow> state" where
  "new_Set s = s\<lparr>visited_sets := (visited_sets s)(next_vid s \<mapsto> []), next_vid := next_vid s + 1\<rparr>"

definition the_visited :: "state \<Rightarrow> vid \<Rightarrow> url list" where
  "the_visited s v = (case visited_sets s v of Some us \<Rightarrow> us | None \<Rightarrow> [])"

definition visited_add :: "vid \<Rightarrow> url \<Rightarrow> state \<Rightarrow> state" where
  "visited_add v u s =
     (if u \<in> set (the_visited s v) then s
      else s\<lparr>visited_sets := (visited_sets s)(v \<mapsto> the_visited s v @ [u])\<rparr>)"

definition new_promise :: "source \<Rightarrow> state \<Rightarrow> state" where
  "new_promise src s = s\<lparr>origin := (origin s)(next_pid s \<mapsto> src), next_pid := next_pid s + 1\<rparr>"

definition new_settled_promise :: "outcome \<Rightarrow> state \<Rightarrow> state" where
  "new_settled_promise r s =
     s\<lparr>settled := (settled s)(next_pid s \<mapsto> r), next_pid := next_pid s + 1\<rparr>"


subsection \<open>Forking the cache\<close>

text \<open>
  Modelled from the spec: \<^verbatim>\<open>getImportersOf\<close> of \<^verbatim>\<open>./analysis-cache\<close>, which is not among
  the sources. The spec (section 4.3): the set of URLs whose (analyzed or scanned)
  document transitively imports \<^verbatim>\<open>changedUrl\<close>; the computation walks the import graph
  over both caches, dereferencing lazy edges, and a visited set ends it on cycles.
  \<^verbatim>\<open>import_urls\<close> are the targets of the import features of one scanned document;
  \<^verbatim>\<open>importers\<close> adds, round by round, the documents with an edge into the set found so
  far, at most once each.
\<close>

fun import_urls :: "scanned_feature list \<Rightarrow> url list" where
  "import_urls [] = []"
| "import_urls (ScannedImport t u usr sr d # fs) = u # import_urls fs"
| "import_urls (f # fs) = import_urls fs"

definition lazy_edges_of :: "lazy_edge_map option \<Rightarrow> url \<Rightarrow> url list" where
  "lazy_edges_of le u =
     (case le of None \<Rightarrow> []
      | Some m \<Rightarrow> (case map_of m u of None \<Rightarrow> [] | Some us \<Rightarrow> us))"

fun importers :: "nat \<Rightarrow> (url \<times> url list) list \<Rightarrow> url list \<Rightarrow> url list" where
  "importers 0 graph seen = seen"
| "importers (Suc n) graph seen =
     (let found = remdups [u \<leftarrow> map fst graph. u \<notin> set seen \<and>
                             (\<exists>(u', targets) \<in> set graph. u' = u \<and> (\<exists>t \<in> set targets. t \<in> set seen))]
      in if found = [] then seen else importers n graph (seen @ found))"

definition getImportersOf ::
  "url \<Rightarrow> scanned_document list \<Rightarrow> scanned_document list \<Rightarrow> lazy_edge_map option \<Rightarrow>
   (url \<Rightarrow> url) \<Rightarrow> url list"
where
  "getImportersOf changedUrl analyzed scanned lazyEdges resolveFn =
     (let graph = map (\<lambda>d. (sd_url d, map resolveFn (import_urls (features d) @
                                            lazy_edges_of lazyEdges (sd_url d))))
                      (analyzed @ scanned)
      in tl (importers (length graph) graph [changedUrl]))"

text \<open>
  Modelled from the spec: \<^verbatim>\<open>AnalysisCache.onPathChanged\<close> of \<^verbatim>\<open>./analysis-cache\<close>, which is
  not among the sources. The spec (section 4.3): produce a new cache in which the union
  of \<^verbatim>\<open>changedUrl\<close> and the dependants has been removed from all the maps, and every
  other entry is carried over by reference. The old cache is left as it is.
\<close>

definition remove_keys :: "url list \<Rightarrow> (url \<times> 'v) list \<Rightarrow> (url \<times> 'v) list" where
  "remove_keys ks m = filter (\<lambda>(k, v). k \<notin> set ks) m"

definition onPathChanged :: "analysis_cache \<Rightarrow> url \<Rightarrow> url list \<Rightarrow> analysis_cache" where
  "onPathChanged cache changedUrl dependants =
     (let ks = changedUrl # dependants in
      \<lparr>parsedDocumentPromises = remove_keys ks (parsedDocumentPromises cache),
       scannedDocumentPromises = remove_keys ks (scannedDocumentPromises cache),
       dependenciesScanned = remove_keys ks (dependenciesScanned cache),
       analyzedDocumentPromises = remove_keys ks (analyzedDocumentPromises cache),
       scannedDocuments = remove_keys ks (scannedDocuments cache),
       analyzedDocuments = remove_keys ks (analyzedDocuments cache)\<rparr>)"

text \<open>
  \<^verbatim>\<open>fileChanged\<close> (lines 187-200). The values of \<^verbatim>\<open>analyzedDocuments\<close> and
  \<^verbatim>\<open>scannedDocuments\<close> are read through the store. The call of \<^verbatim>\<open>getImportersOf\<close> in
  the source has four arguments: the resolved URL, the two collections of documents
  and the resolve function. The lazy-edge map of the context, which the spec
  (section 9) has \<^verbatim>\<open>getImportersOf\<close> consult, is handed to the modelled function as a
  further argument; without a lazy-edge map it adds no edge.
\<close>

definition dependants_of :: "state \<Rightarrow> cache_context \<Rightarrow> url \<Rightarrow> url list" where
  "dependants_of s this resolvedUrl =
     getImportersOf resolvedUrl
       (map (\<lambda>(u, d). the_sdoc s (doc_base (documents s ! d)))
            [(u, d) \<leftarrow> analyzedDocuments (c_cache this). d < length (documents s)])
       (map (\<lambda>(u, d). the_sdoc s d) (scannedDocuments (c_cache this)))
       (c_lazyEdges this)
       (\<lambda>u. resolveUrl this u)"

definition fileChanged :: "state \<Rightarrow> cache_context \<Rightarrow> url \<Rightarrow> cache_context" where
  "fileChanged s this u =
     (let resolvedUrl = resolveUrl this u;
          dependants = dependants_of s this resolvedUrl;
          newCache = onPathChanged (c_cache this) resolvedUrl dependants
      in fork this newCache)"

subsection \<open>Constructing analyzed documents\<close>

text \<open>
  \<^verbatim>\<open>_makeDocument\<close> (lines 251-266) and \<^verbatim>\<open>_getDocument\<close> (lines 276-291).
  \<^verbatim>\<open>document.resolve()\<close> may come back into \<^verbatim>\<open>_getDocument\<close>, once for each URL of
  \<^verbatim>\<open>resolve_lookups\<close>; the first argument bounds the depth of that nesting, and
  running out of it sets \<^verbatim>\<open>fuel_exhausted\<close>. \<^verbatim>\<open>getDocument_with\<close> is the body of
  \<^verbatim>\<open>_getDocument\<close> and \<^verbatim>\<open>resolve_document\<close> the lookups of one \<^verbatim>\<open>document.resolve()\<close>, for
  a given way of making documents.
\<close>

primrec resolve_document ::
  "(url \<Rightarrow> state \<Rightarrow> (thrown + doc_ref option) \<times> state) \<Rightarrow> url list \<Rightarrow> state \<Rightarrow>
   thrown option \<times> state"
where
  "resolve_document getDoc [] s = (None, s)"
| "resolve_document getDoc (u # us) s =
     (case getDoc u s of
        (Inl e, s') \<Rightarrow> (Some e, s')
      | (Inr _, s') \<Rightarrow> resolve_document getDoc us s')"

definition getDocument_with ::
  "(sd_ref \<Rightarrow> state \<Rightarrow> (thrown + doc_ref) \<times> state) \<Rightarrow> cid \<Rightarrow> url \<Rightarrow> state \<Rightarrow>
   (thrown + doc_ref option) \<times> state"
where
  "getDocument_with makeDoc this u s =
     (let resolvedUrl = resolveUrl (the_context s this) u in
      case map_of (analyzedDocuments (the_cache s this)) resolvedUrl of
        Some doc \<Rightarrow> (Inr (Some doc), s)
      | None \<Rightarrow>
          (case map_of (scannedDocuments (the_cache s this)) resolvedUrl of
             None \<Rightarrow> (Inr None, s)
           | Some scannedDocument \<Rightarrow>
               (case makeDoc scannedDocument s of
                  (Inl e, s') \<Rightarrow> (Inl e, s')
                | (Inr doc, s') \<Rightarrow> (Inr (Some doc), s'))))"

definition already_exists :: "url \<Rightarrow> thrown" where
  "already_exists resolvedUrl =
     Error (''Internal error: document '' @ resolvedUrl @ '' already exists'')"

definition new_Document :: "cid \<Rightarrow> sd_ref \<Rightarrow> url \<Rightarrow> state \<Rightarrow> state" where
  "new_Document this scannedDocument u s =
     s\<lparr>documents := documents s @
          [\<lparr>doc_base = scannedDocument, doc_analyzer = this, doc_url = u\<rparr>]\<rparr>"

text \<open>Lines 258-263: the new document and its two cache entries.\<close>

definition store_document :: "cid \<Rightarrow> sd_ref \<Rightarrow> url \<Rightarrow> state \<Rightarrow> state" where
  "store_document this scannedDocument resolvedUrl s =
     (let doc = length (documents s);
          s1 = new_Document this scannedDocument resolvedUrl s;
          s2 = (if \<not> has (analyzedDocumentPromises (the_cache s1 this)) resolvedUrl
                then update_cache this
                       (\<lambda>c. c\<lparr>analyzedDocumentPromises :=
                                AList.update resolvedUrl (next_pid s1) (analyzedDocumentPromises c)\<rparr>)
                       (new_settled_promise (Fulfilled (Document doc)) s1)
                else s1)
      in update_cache this
           (\<lambda>c. c\<lparr>analyzedDocuments := AList.update resolvedUrl doc (analyzedDocuments c)\<rparr>)
           s2)"

primrec makeDocument ::
  "nat \<Rightarrow> world \<Rightarrow> cid \<Rightarrow> sd_ref \<Rightarrow> state \<Rightarrow> (thrown + doc_ref) \<times> state"
where
  "makeDocument 0 w this scannedDocument s =
     (Inl (Error ''out of fuel''), s\<lparr>fuel_exhausted := True\<rparr>)"
| "makeDocument (Suc n) w this scannedDocument s =
     (let resolvedUrl = sd_url (the_sdoc s scannedDocument) in
      if has (analyzedDocuments (the_cache s this)) resolvedUrl
      then (Inl (already_exists resolvedUrl), s)
      else
        case resolve_document (getDocument_with (makeDocument n w this) this)
               (resolve_lookups w (the_sdoc s scannedDocument))
               (store_document this scannedDocument resolvedUrl s) of
          (Some e, s') \<Rightarrow> (Inl e, s')
        | (None, s') \<Rightarrow> (Inr (length (documents s)), s'))"

definition getDocument ::
  "nat \<Rightarrow> world \<Rightarrow> cid \<Rightarrow> url \<Rightarrow> state \<Rightarrow> (thrown + doc_ref option) \<times> state"
where
  "getDocument n w this u s = getDocument_with (makeDocument n w this) this u s"

subsection \<open>File extensions\<close>

text \<open>
  \<^verbatim>\<open>path.extname\<close> of Node, from its documentation: the extension of the last portion of
  the path, from its last \<^verbatim>\<open>.\<close> on, and empty when there is none or when the only one
  is the first character of that portion.
\<close>

definition extname :: "string \<Rightarrow> string" where
  "extname p =
     (let b = rev (takeWhile (\<lambda>c. c \<noteq> CHR ''/'') (dropWhile (\<lambda>c. c = CHR ''/'') (rev p)));
          e = rev (takeWhile (\<lambda>c. c \<noteq> CHR ''.'') (rev b))
      in if CHR ''.'' \<notin> set b \<or> length e + 1 = length b \<or> b = ''..'' then []
         else CHR ''.'' # e)"


section \<open>Asynchronous functions\<close>

text \<open>
  An \<^verbatim>\<open>async\<close> function is a tree of what it does between its suspension points. It
  runs synchronously up to its first \<^verbatim>\<open>await\<close>; there its continuation, a function of
  how the awaited promise settles, is registered on that promise.
\<close>

datatype prog =
    Return val
  | Throw thrown
  | ReturnPromise pid
  | Await pid "outcome \<Rightarrow> prog"
  | Read "state \<Rightarrow> prog"
  | Write "state \<Rightarrow> state" prog
  | Async call "pid \<Rightarrow> prog"
  | External outcome "pid \<Rightarrow> prog"
  | PromiseResolve val "pid \<Rightarrow> prog"
  | PromiseAll "pid list" "pid \<Rightarrow> prog"
  | Then pid "val \<Rightarrow> state \<Rightarrow> state" prog

text \<open>
  \<^const>\<open>Return\<close> and \<^const>\<open>Throw\<close> end the function with a value or an exception;
  \<^const>\<open>ReturnPromise\<close> is \<^verbatim>\<open>return p\<close> for a promise \<^verbatim>\<open>p\<close>. \<^const>\<open>Read\<close> and \<^const>\<open>Write\<close>
  are the synchronous accesses to the store. \<^const>\<open>Async\<close> calls an \<^verbatim>\<open>async\<close> function
  and continues with its promise. \<^const>\<open>External\<close> is a promise that code outside the
  analyzer settles later (\<^verbatim>\<open>UrlLoader.load\<close>, \<^verbatim>\<open>scan\<close>), with the outcome it will have.
  \<^const>\<open>Then\<close> is \<^verbatim>\<open>p.then(callback)\<close> whose own result is dropped.

  \<^verbatim>\<open>await_value\<close> is an \<^verbatim>\<open>await\<close> outside of any \<^verbatim>\<open>try\<close>: a rejection is rethrown.
\<close>

definition await_value :: "pid \<Rightarrow> (val \<Rightarrow> prog) \<Rightarrow> prog" where
  "await_value p k = Await p (\<lambda>r. case r of Fulfilled v \<Rightarrow> k v | Rejected e \<Rightarrow> Throw e)"

definition type_error :: thrown where
  "type_error = Error ''TypeError''"

definition set_analyzedDocumentPromise :: "cid \<Rightarrow> url \<Rightarrow> pid \<Rightarrow> state \<Rightarrow> state" where
  "set_analyzedDocumentPromise this u p =
     update_cache this (\<lambda>c. c\<lparr>analyzedDocumentPromises := AList.update u p (analyzedDocumentPromises c)\<rparr>)"

definition set_scannedDocumentPromise :: "cid \<Rightarrow> url \<Rightarrow> pid \<Rightarrow> state \<Rightarrow> state" where
  "set_scannedDocumentPromise this u p =
     update_cache this (\<lambda>c. c\<lparr>scannedDocumentPromises := AList.update u p (scannedDocumentPromises c)\<rparr>)"

definition set_parsedDocumentPromise :: "cid \<Rightarrow> url \<Rightarrow> pid \<Rightarrow> state \<Rightarrow> state" where
  "set_parsedDocumentPromise this u p =
     update_cache this (\<lambda>c. c\<lparr>parsedDocumentPromises := AList.update u p (parsedDocumentPromises c)\<rparr>)"

definition set_dependenciesScanned :: "cid \<Rightarrow> url \<Rightarrow> pid \<Rightarrow> state \<Rightarrow> state" where
  "set_dependenciesScanned this u p =
     update_cache this (\<lambda>c. c\<lparr>dependenciesScanned := AList.update u p (dependenciesScanned c)\<rparr>)"

definition set_scannedDocument :: "cid \<Rightarrow> url \<Rightarrow> sd_ref \<Rightarrow> state \<Rightarrow> state" where
  "set_scannedDocument this u d =
     update_cache this (\<lambda>c. c\<lparr>scannedDocuments := AList.update u d (scannedDocuments c)\<rparr>)"

text \<open>\<^verbatim>\<open>Analyzer.analyze\<close> (lines 87-92) and \<^verbatim>\<open>Analyzer.load\<close> (lines 116-118).\<close>

definition Analyzer_analyze_body :: "url \<Rightarrow> string option \<Rightarrow> prog" where
  "Analyzer_analyze_body u contents =
     (case contents of
        Some c \<Rightarrow>
          Write (\<lambda>s. s\<lparr>contexts := (contexts s)(next_cid s \<mapsto>
                                      fileChanged s (the_context s (analyzer s)) u),
                       analyzer := next_cid s,
                       next_cid := next_cid s + 1\<rparr>)
            (Read (\<lambda>s. Async (Analyze (analyzer s) u contents) ReturnPromise))
      | None \<Rightarrow> Read (\<lambda>s. Async (Analyze (analyzer s) u contents) ReturnPromise))"

definition Analyzer_load_body :: "url \<Rightarrow> string option \<Rightarrow> prog" where
  "Analyzer_load_body resolvedUrl providedContents =
     Read (\<lambda>s. Async (Load (analyzer s) resolvedUrl providedContents) ReturnPromise)"

text \<open>\<^verbatim>\<open>AnalyzerCacheContext.analyze\<close> (lines 215-245) and its \<^verbatim>\<open>async\<close> arrow (223-242).\<close>

definition analyze :: "cid \<Rightarrow> url \<Rightarrow> string option \<Rightarrow> prog" where
  "analyze this u contents =
     Read (\<lambda>s.
       let resolvedUrl = resolveUrl (the_context s this) u in
       case map_of (analyzedDocumentPromises (the_cache s this)) resolvedUrl of
         Some cachedResult \<Rightarrow> ReturnPromise cachedResult
       | None \<Rightarrow>
           Async (Analyze_async this u resolvedUrl contents) (\<lambda>promise.
             Write (set_analyzedDocumentPromise this resolvedUrl promise)
               (ReturnPromise promise)))"

text \<open>\<^verbatim>\<open>analyze_resume\<close> is the arrow from line 230 on, with the result of \<^verbatim>\<open>_scan\<close>.\<close>

definition zero_cycle_error :: "url \<Rightarrow> thrown" where
  "zero_cycle_error u =
     Error (''This should not happen. Got a cycle of length zero(!) scanning '' @ u)"

definition analyze_resume :: "world \<Rightarrow> nat \<Rightarrow> cid \<Rightarrow> url \<Rightarrow> val \<Rightarrow> prog" where
  "analyze_resume w fuel this u scannedDocument =
     (if scannedDocument = Visited then Throw (zero_cycle_error u)
      else PromiseResolve Undefined (\<lambda>p2. await_value p2 (\<lambda>_.
        case scannedDocument of
          Scanned d \<Rightarrow>
            Read (\<lambda>s. Write (\<lambda>s. snd (makeDocument fuel w this d s))
                         (case fst (makeDocument fuel w this d s) of
                            Inl e \<Rightarrow> Throw e
                          | Inr doc \<Rightarrow> Return (Document doc)))
        | _ \<Rightarrow> Throw type_error)))"

definition analyze_async :: "world \<Rightarrow> nat \<Rightarrow> cid \<Rightarrow> url \<Rightarrow> url \<Rightarrow> string option \<Rightarrow> prog" where
  "analyze_async w fuel this u resolvedUrl contents =
     PromiseResolve Undefined (\<lambda>p0. await_value p0 (\<lambda>_.
       Async (Scan this resolvedUrl contents None)
         (\<lambda>p1. await_value p1 (analyze_resume w fuel this u))))"

text \<open>\<^verbatim>\<open>_scan\<close> (lines 328-361) and its \<^verbatim>\<open>async\<close> arrow (348-354).\<close>

definition scan_rest :: "cid \<Rightarrow> url \<Rightarrow> string option \<Rightarrow> vid \<Rightarrow> prog" where
  "scan_rest this resolvedUrl contents actualVisited =
     Write (visited_add actualVisited resolvedUrl)
       (Read (\<lambda>s.
          case map_of (scannedDocumentPromises (the_cache s this)) resolvedUrl of
            Some cachedResult \<Rightarrow>
              await_value cachedResult (\<lambda>v.
                Async (ScanDependenciesOfToplevelDoc this v actualVisited) (\<lambda>p.
                  await_value p (\<lambda>_. ReturnPromise cachedResult)))
          | None \<Rightarrow>
              Async (Scan_async this resolvedUrl contents) (\<lambda>promise.
                Write (set_scannedDocumentPromise this resolvedUrl promise)
                  (await_value promise (\<lambda>scannedDocument.
                     Async (ScanDependenciesOfToplevelDoc this scannedDocument actualVisited) (\<lambda>p.
                       await_value p (\<lambda>_. Return scannedDocument)))))))"

definition scan :: "cid \<Rightarrow> url \<Rightarrow> string option \<Rightarrow> vid option \<Rightarrow> prog" where
  "scan this resolvedUrl contents visited =
     Read (\<lambda>s.
       case visited of
         Some v \<Rightarrow>
           if resolvedUrl \<in> set (the_visited s v) then Return Visited
           else scan_rest this resolvedUrl contents v
       | None \<Rightarrow> Write new_Set (scan_rest this resolvedUrl contents (next_vid s)))"

definition scan_async :: "cid \<Rightarrow> url \<Rightarrow> string option \<Rightarrow> prog" where
  "scan_async this resolvedUrl contents =
     PromiseResolve Undefined (\<lambda>p0. await_value p0 (\<lambda>_.
       Async (Parse this resolvedUrl contents) (\<lambda>p. await_value p (\<lambda>v.
         case v of
           Parsed doc \<Rightarrow> Async (ScanDocument this doc None) ReturnPromise
         | _ \<Rightarrow> Throw type_error))))"

text \<open>\<^verbatim>\<open>_scanInlineSource\<close> (lines 366-376).\<close>

definition scanInlineSource ::
  "world \<Rightarrow> cid \<Rightarrow> string \<Rightarrow> string \<Rightarrow> url \<Rightarrow> vid \<Rightarrow> inline_info option \<Rightarrow> string option \<Rightarrow> prog"
where
  "scanInlineSource w this type contents u visited inlineInfo attachedComment =
     Read (\<lambda>s.
       let resolvedUrl = resolveUrl (the_context s this) u in
       case parseContents w (the_context s this) type contents resolvedUrl inlineInfo of
         Inl e \<Rightarrow> Throw e
       | Inr parsedDoc \<Rightarrow>
           Async (ScanDocument this parsedDoc attachedComment) (\<lambda>p. await_value p (\<lambda>v.
             case v of
               Scanned scannedDoc \<Rightarrow>
                 Async (ScanDependencies this scannedDoc visited) (\<lambda>p'.
                   await_value p' (\<lambda>_. Return (Scanned scannedDoc)))
             | _ \<Rightarrow> Throw type_error)))"

text \<open>\<^verbatim>\<open>_scanDocument\<close> (lines 381-405) and \<^verbatim>\<open>_getScannedFeatures\<close> (lines 592-599).\<close>

fun is_ScannedElement :: "scanned_feature \<Rightarrow> bool" where
  "is_ScannedElement (ScannedElement c) = True"
| "is_ScannedElement f = False"

text \<open>\<^verbatim>\<open>scanDocument_resume\<close> is the function from line 388 on, with the scanned features.\<close>

definition already_in_cache :: thrown where
  "already_in_cache = Error ''Scanned document already in cache. This should never happen.''"

definition scanDocument_resume :: "cid \<Rightarrow> parsed_document \<Rightarrow> string option \<Rightarrow> val \<Rightarrow> prog" where
  "scanDocument_resume this doc maybeAttachedComment v =
     (case v of
        Features scannedFeatures \<Rightarrow>
          (let fs = (case scannedFeatures of
                       [] \<Rightarrow> []
                     | firstScannedFeature # rest \<Rightarrow>
                         (if is_ScannedElement firstScannedFeature
                          then applyHtmlComment firstScannedFeature maybeAttachedComment # rest
                          else scannedFeatures));
               scannedDocument = \<lparr>document = doc, features = fs, warnings = []\<rparr>
           in Read (\<lambda>s. Write (new_ScannedDocument scannedDocument)
                (if \<not> isInline scannedDocument then
                   Read (\<lambda>s'.
                     if has (scannedDocuments (the_cache s' this)) (sd_url scannedDocument)
                     then Throw already_in_cache
                     else Write (set_scannedDocument this (sd_url scannedDocument) (next_sd s))
                            (Return (Scanned (next_sd s))))
                 else Return (Scanned (next_sd s)))))
      | _ \<Rightarrow> Throw type_error)"

definition scanDocument :: "cid \<Rightarrow> parsed_document \<Rightarrow> string option \<Rightarrow> prog" where
  "scanDocument this doc maybeAttachedComment =
     Async (GetScannedFeatures this doc)
       (\<lambda>p. await_value p (scanDocument_resume this doc maybeAttachedComment))"

definition getScannedFeatures :: "world \<Rightarrow> cid \<Rightarrow> parsed_document \<Rightarrow> prog" where
  "getScannedFeatures w this doc =
     Read (\<lambda>s.
       case scanners_for (the_context s this) (pd_type doc) of
         Some scanners \<Rightarrow>
           External (case scan_fn w doc scanners of
                       Inl e \<Rightarrow> Rejected e | Inr fs \<Rightarrow> Fulfilled (Features fs))
             ReturnPromise
       | None \<Rightarrow> Return (Features []))"

text \<open>\<^verbatim>\<open>_scanDependenciesOfToplevelDoc\<close> (lines 407-435).\<close>

definition scanDependenciesOfToplevelDoc :: "cid \<Rightarrow> val \<Rightarrow> vid \<Rightarrow> prog" where
  "scanDependenciesOfToplevelDoc this scannedDocument visited =
     (case scannedDocument of
        Scanned d \<Rightarrow>
          Read (\<lambda>s.
            let u = sd_url (the_sdoc s d) in
            case map_of (dependenciesScanned (the_cache s this)) u of
              Some scanDepPromise \<Rightarrow>
                Write (set_dependenciesScanned this u scanDepPromise)
                  (await_value scanDepPromise (\<lambda>_. ReturnPromise scanDepPromise))
            | None \<Rightarrow>
                Async (ScanDependencies this d visited) (\<lambda>scanDepPromise.
                  Write (set_dependenciesScanned this u scanDepPromise)
                    (await_value scanDepPromise (\<lambda>_. ReturnPromise scanDepPromise))))
      | _ \<Rightarrow> Throw type_error)"

text \<open>
  \<^verbatim>\<open>_scanDependencies\<close> (lines 443-471): \<^verbatim>\<open>filter\<close>, then \<^verbatim>\<open>map\<close> with an \<^verbatim>\<open>async\<close>
  callback, which starts every callback in turn, then \<^verbatim>\<open>Promise.all\<close>.
\<close>

fun is_dependency :: "scanned_feature \<Rightarrow> bool" where
  "is_dependency (ScannedInlineDocument t c lo ac an d) = True"
| "is_dependency (ScannedImport t u usr sr d) = True"
| "is_dependency f = False"

fun async_map :: "call list \<Rightarrow> (pid list \<Rightarrow> prog) \<Rightarrow> prog" where
  "async_map [] k = k []"
| "async_map (c # cs) k = Async c (\<lambda>p. async_map cs (\<lambda>ps. k (p # ps)))"

definition scanDependencies :: "cid \<Rightarrow> sd_ref \<Rightarrow> vid \<Rightarrow> prog" where
  "scanDependencies this scannedDocument visited =
     Read (\<lambda>s.
       let fs = features (the_sdoc s scannedDocument);
           scannedDependencies = [i \<leftarrow> [0..<length fs]. is_dependency (fs ! i)]
       in async_map (map (\<lambda>i. ScanDependency this scannedDocument i visited) scannedDependencies)
            (\<lambda>scannedSubDocuments.
               PromiseAll scannedSubDocuments (\<lambda>p. await_value p (\<lambda>_. Return Undefined))))"

definition scanDependency :: "cid \<Rightarrow> sd_ref \<Rightarrow> nat \<Rightarrow> vid \<Rightarrow> prog" where
  "scanDependency this scannedDocument i visited =
     Read (\<lambda>s.
       case the_feature s scannedDocument i of
         ScannedInlineDocument t c lo ac an d \<Rightarrow>
           Async (ScanInlineDocument this scannedDocument i
                    (document (the_sdoc s scannedDocument)) scannedDocument visited)
             ReturnPromise
       | ScannedImport t u usr sr d \<Rightarrow>
           if t \<noteq> ''lazy-html-import''
           then Async (ScanImport this scannedDocument i scannedDocument visited) ReturnPromise
           else Return Null
       | _ \<Rightarrow> Throw (Error ''Unexpected dependency type''))"

text \<open>\<^verbatim>\<open>_scanInlineDocument\<close> (lines 476-503).\<close>

definition scanInlineDocument ::
  "cid \<Rightarrow> sd_ref \<Rightarrow> nat \<Rightarrow> parsed_document \<Rightarrow> sd_ref \<Rightarrow> vid \<Rightarrow> prog"
where
  "scanInlineDocument this owner i containingDocument warnings_of visited =
     Read (\<lambda>s.
       case the_feature s owner i of
         ScannedInlineDocument t c lo ac an d \<Rightarrow>
           (let locationOffset = \<lparr>lo_line = lo_line lo, lo_col = lo_col lo,
                                  lo_filename = Some (pd_url containingDocument)\<rparr>;
                inlineInfo = \<lparr>ii_locationOffset = locationOffset, ii_astNode = an\<rparr>
            in Async (ScanInlineSource this t c (pd_url containingDocument) visited
                        (Some inlineInfo) ac)
                 (\<lambda>p. Await p (\<lambda>r.
                    case r of
                      Fulfilled (Scanned scannedDocument) \<Rightarrow>
                        Write (assign_scannedDocument owner i scannedDocument)
                          (Return (Scanned scannedDocument))
                    | Fulfilled v \<Rightarrow> Throw type_error
                    | Rejected (WarningCarryingException x) \<Rightarrow>
                        Write (push_warning warnings_of x) (Return Null)
                    | Rejected err \<Rightarrow> Throw err)))
       | _ \<Rightarrow> Throw type_error)"

text \<open>\<^verbatim>\<open>_scanImport\<close> (lines 505-531).\<close>

fun is_NoKnownParserError :: "thrown \<Rightarrow> bool" where
  "is_NoKnownParserError (NoKnownParserError m) = True"
| "is_NoKnownParserError e = False"

fun import_source_range :: "scanned_feature \<Rightarrow> source_range option" where
  "import_source_range (ScannedImport t u (Some urlSourceRange) sr d) = Some urlSourceRange"
| "import_source_range (ScannedImport t u None sr d) = sr"
| "import_source_range f = None"

definition could_not_load :: "scanned_feature \<Rightarrow> thrown \<Rightarrow> warning" where
  "could_not_load scannedImport error =
     \<lparr>code = ''could-not-load'',
      message = ''Unable to load import: '' @ thrown_text error,
      sourceRange = import_source_range scannedImport,
      severity = ERROR\<rparr>"

definition assign_callback :: "sd_ref \<Rightarrow> nat \<Rightarrow> val \<Rightarrow> state \<Rightarrow> state" where
  "assign_callback owner i v s =
     (case v of Scanned d \<Rightarrow> assign_scannedDocument owner i d s | _ \<Rightarrow> s)"

text \<open>
  \<^verbatim>\<open>scanImport_resume\<close> is the function from the \<^verbatim>\<open>await\<close> of line 510 on: the
  \<^verbatim>\<open>catch\<close> block when the nested scan was rejected, lines 527-530 otherwise.
\<close>

definition scanImport_resume :: "cid \<Rightarrow> sd_ref \<Rightarrow> nat \<Rightarrow> sd_ref \<Rightarrow> url \<Rightarrow> outcome \<Rightarrow> prog" where
  "scanImport_resume this owner i warnings_of u r =
     (case r of
        Rejected error \<Rightarrow>
          if is_NoKnownParserError error then Return Null
          else Read (\<lambda>s. Write (push_warning warnings_of
                                  (could_not_load (the_feature s owner i) error))
                 (Return Null))
      | Fulfilled v \<Rightarrow>
          Read (\<lambda>s.
            case map_of (scannedDocumentPromises (the_cache s this)) u of
              Some scanned \<Rightarrow> Then scanned (assign_callback owner i) (Return Null)
            | None \<Rightarrow> Throw type_error))"

definition scanImport :: "cid \<Rightarrow> sd_ref \<Rightarrow> nat \<Rightarrow> sd_ref \<Rightarrow> vid \<Rightarrow> prog" where
  "scanImport this owner i warnings_of visited =
     Read (\<lambda>s.
       case the_feature s owner i of
         ScannedImport t u0 usr sr d \<Rightarrow>
           (let u = resolveUrl (the_context s this) u0 in
            Async (Scan this u None (Some visited))
              (\<lambda>p. Await p (scanImport_resume this owner i warnings_of u)))
       | _ \<Rightarrow> Throw type_error)"

text \<open>\<^verbatim>\<open>AnalyzerCacheContext.load\<close> (lines 540-546).\<close>

definition cannot_load :: "url \<Rightarrow> thrown" where
  "cannot_load resolvedUrl = Error (''Can't load URL: '' @ resolvedUrl)"

definition load :: "cid \<Rightarrow> url \<Rightarrow> string option \<Rightarrow> prog" where
  "load this resolvedUrl providedContents =
     Read (\<lambda>s.
       if \<not> canLoad (c_loader (the_context s this)) resolvedUrl
       then Throw (cannot_load resolvedUrl)
       else case providedContents of
              None \<Rightarrow>
                External (case loader_load (c_loader (the_context s this)) resolvedUrl of
                            Inl e \<Rightarrow> Rejected e | Inr c \<Rightarrow> Fulfilled (Str c))
                  (\<lambda>p. await_value p Return)
            | Some c \<Rightarrow> Return (Str c))"

text \<open>\<^verbatim>\<open>_parse\<close> (lines 548-573) and its \<^verbatim>\<open>async\<close> arrow (558-570).\<close>

definition parse :: "cid \<Rightarrow> url \<Rightarrow> string option \<Rightarrow> prog" where
  "parse this resolvedUrl providedContents =
     Read (\<lambda>s.
       case map_of (parsedDocumentPromises (the_cache s this)) resolvedUrl of
         Some cachedResult \<Rightarrow> ReturnPromise cachedResult
       | None \<Rightarrow>
           Async (Parse_async this resolvedUrl providedContents) (\<lambda>promise.
             Write (set_parsedDocumentPromise this resolvedUrl promise)
               (ReturnPromise promise)))"

text \<open>\<^verbatim>\<open>parse_resume\<close> is the arrow from line 564 on, with the loaded content.\<close>

definition parse_resume :: "world \<Rightarrow> cid \<Rightarrow> url \<Rightarrow> val \<Rightarrow> prog" where
  "parse_resume w this resolvedUrl v =
     (case v of
        Str content \<Rightarrow>
          Read (\<lambda>s.
            let extension = drop 1 (extname resolvedUrl) in
            case parseContents w (the_context s this) extension content resolvedUrl None of
              Inl e \<Rightarrow> Throw e
            | Inr parsedDoc \<Rightarrow> Return (Parsed parsedDoc))
      | _ \<Rightarrow> Throw type_error)"

definition parse_async :: "world \<Rightarrow> cid \<Rightarrow> url \<Rightarrow> string option \<Rightarrow> prog" where
  "parse_async w this resolvedUrl providedContents =
     PromiseResolve Undefined (\<lambda>p0. await_value p0 (\<lambda>_.
       Async (Load this resolvedUrl providedContents)
         (\<lambda>p. await_value p (parse_resume w this resolvedUrl))))"

text \<open>The body of every \<^verbatim>\<open>async\<close> function.\<close>

fun body :: "world \<Rightarrow> nat \<Rightarrow> call \<Rightarrow> prog" where
  "body w fuel (Analyzer_analyze u c) = Analyzer_analyze_body u c"
| "body w fuel (Analyzer_load u c) = Analyzer_load_body u c"
| "body w fuel (Analyze this u c) = analyze this u c"
| "body w fuel (Analyze_async this u ru c) = analyze_async w fuel this u ru c"
| "body w fuel (Scan this u c v) = scan this u c v"
| "body w fuel (Scan_async this u c) = scan_async this u c"
| "body w fuel (ScanInlineSource this t c u v ii ac) = scanInlineSource w this t c u v ii ac"
| "body w fuel (ScanDocument this d ac) = scanDocument this d ac"
| "body w fuel (ScanDependenciesOfToplevelDoc this d v) = scanDependenciesOfToplevelDoc this d v"
| "body w fuel (ScanDependencies this d v) = scanDependencies this d v"
| "body w fuel (ScanDependency this d i v) = scanDependency this d i v"
| "body w fuel (ScanInlineDocument this d i cd ws v) = scanInlineDocument this d i cd ws v"
| "body w fuel (ScanImport this d i ws v) = scanImport this d i ws v"
| "body w fuel (Load this u c) = load this u c"
| "body w fuel (Parse this u c) = parse this u c"
| "body w fuel (Parse_async this u c) = parse_async w this u c"
| "body w fuel (GetScannedFeatures this d) = getScannedFeatures w this d"


section \<open>Promises and the microtask queue\<close>

text \<open>
  The promise machinery of the language. A pending promise holds its reactions in the
  order in which they were registered; settling it appends one job for each to the
  microtask queue, which runs first in, first out. \<^verbatim>\<open>await p\<close> registers the rest of
  the function as a reaction on \<^verbatim>\<open>p\<close> (a job at once when \<^verbatim>\<open>p\<close> is settled already);
  \<^verbatim>\<open>return p\<close> from an \<^verbatim>\<open>async\<close> function queues a job that makes the function's own
  promise follow \<^verbatim>\<open>p\<close>; \<^verbatim>\<open>Promise.all\<close> counts down its elements.
\<close>

datatype reaction =
    Resume "outcome \<Rightarrow> prog" pid
  | Adopt pid
  | AllElement pid
  | Callback "val \<Rightarrow> state \<Rightarrow> state"

datatype job = Reaction reaction outcome | ResolveThenable pid pid

record machine =
  store :: state
  reactions :: "pid \<Rightarrow> reaction list"
  microtasks :: "job list"
  all_remaining :: "pid \<Rightarrow> nat"

definition settle_promise :: "pid \<Rightarrow> outcome \<Rightarrow> state \<Rightarrow> state" where
  "settle_promise q r s = s\<lparr>settled := (settled s)(q \<mapsto> r)\<rparr>"

definition settle :: "pid \<Rightarrow> outcome \<Rightarrow> machine \<Rightarrow> machine" where
  "settle q r m =
     (case settled (store m) q of
        Some _ \<Rightarrow> m
      | None \<Rightarrow>
          m\<lparr>store := settle_promise q r (store m),
            microtasks := microtasks m @ map (\<lambda>x. Reaction x r) (reactions m q),
            reactions := (reactions m)(q := [])\<rparr>)"

definition subscribe :: "pid \<Rightarrow> reaction \<Rightarrow> machine \<Rightarrow> machine" where
  "subscribe p x m =
     (case settled (store m) p of
        Some r \<Rightarrow> m\<lparr>microtasks := microtasks m @ [Reaction x r]\<rparr>
      | None \<Rightarrow> m\<lparr>reactions := (reactions m)(p := reactions m p @ [x])\<rparr>)"

definition new_all_promise :: "pid list \<Rightarrow> state \<Rightarrow> state" where
  "new_all_promise ps s =
     (if ps = [] then new_settled_promise (Fulfilled Undefined) s
      else s\<lparr>next_pid := next_pid s + 1\<rparr>)"

definition promise_all :: "pid list \<Rightarrow> machine \<Rightarrow> machine" where
  "promise_all ps m =
     (let q = next_pid (store m) in
      fold (\<lambda>p. subscribe p (AllElement q)) ps
        (m\<lparr>store := new_all_promise ps (store m),
          all_remaining := (all_remaining m)(q := length ps)\<rparr>))"

primrec exec :: "prog \<Rightarrow> (call \<Rightarrow> pid \<Rightarrow> machine \<Rightarrow> machine) \<Rightarrow> pid \<Rightarrow> machine \<Rightarrow> machine" where
  "exec (Return v) h self m = settle self (Fulfilled v) m"
| "exec (Throw e) h self m = settle self (Rejected e) m"
| "exec (ReturnPromise p) h self m = m\<lparr>microtasks := microtasks m @ [ResolveThenable self p]\<rparr>"
| "exec (Await p k) h self m = subscribe p (Resume k self) m"
| "exec (Read k) h self m = exec (k (store m)) h self m"
| "exec (Write f k) h self m = exec k h self (m\<lparr>store := f (store m)\<rparr>)"
| "exec (Async c k) h self m =
     exec (k (next_pid (store m))) h self
       (h c (next_pid (store m)) (m\<lparr>store := new_promise (Called c) (store m)\<rparr>))"
| "exec (External r k) h self m =
     exec (k (next_pid (store m))) h self (m\<lparr>store := new_promise (Outside r) (store m)\<rparr>)"
| "exec (PromiseResolve v k) h self m =
     exec (k (next_pid (store m))) h self
       (m\<lparr>store := new_settled_promise (Fulfilled v) (store m)\<rparr>)"
| "exec (PromiseAll ps k) h self m =
     exec (k (next_pid (store m))) h self (promise_all ps m)"
| "exec (Then p f k) h self m = exec k h self (subscribe p (Callback f) m)"

text \<open>
  Calling an \<^verbatim>\<open>async\<close> function runs its body up to the first suspension. The third
  argument bounds how deep such calls nest before one suspends.
\<close>

primrec run_call :: "world \<Rightarrow> nat \<Rightarrow> nat \<Rightarrow> call \<Rightarrow> pid \<Rightarrow> machine \<Rightarrow> machine" where
  "run_call w fuel 0 c q m = m\<lparr>store := (store m)\<lparr>fuel_exhausted := True\<rparr>\<rparr>"
| "run_call w fuel (Suc n) c q m = exec (body w fuel c) (run_call w fuel n) q m"

definition run_reaction ::
  "world \<Rightarrow> nat \<Rightarrow> reaction \<Rightarrow> outcome \<Rightarrow> machine \<Rightarrow> machine"
where
  "run_reaction w fuel x r m =
     (case x of
        Resume k self \<Rightarrow> exec (k r) (run_call w fuel fuel) self m
      | Adopt q \<Rightarrow> settle q r m
      | AllElement q \<Rightarrow>
          (case r of
             Rejected e \<Rightarrow> settle q r m
           | Fulfilled v \<Rightarrow>
               if all_remaining m q \<le> 1
               then settle q (Fulfilled Undefined) (m\<lparr>all_remaining := (all_remaining m)(q := 0)\<rparr>)
               else m\<lparr>all_remaining := (all_remaining m)(q := all_remaining m q - 1)\<rparr>)
      | Callback f \<Rightarrow>
          (case r of
             Fulfilled v \<Rightarrow> m\<lparr>store := f v (store m)\<rparr>
           | Rejected e \<Rightarrow> m))"

definition run_job :: "world \<Rightarrow> nat \<Rightarrow> job \<Rightarrow> machine \<Rightarrow> machine" where
  "run_job w fuel j m =
     (case j of
        Reaction x r \<Rightarrow> run_reaction w fuel x r m
      | ResolveThenable q p \<Rightarrow> subscribe p (Adopt q) m)"

text \<open>
  What can happen next: the first microtask runs, an operation outside the analyzer
  completes and settles its promise, or a client calls one of the three methods of the
  \<^verbatim>\<open>Analyzer\<close> (\<^verbatim>\<open>clearCaches\<close>, lines 105-107, is synchronous).
\<close>

definition invoke :: "world \<Rightarrow> nat \<Rightarrow> call \<Rightarrow> machine \<Rightarrow> machine" where
  "invoke w fuel c m =
     run_call w fuel fuel c (next_pid (store m)) (m\<lparr>store := new_promise (Called c) (store m)\<rparr>)"

datatype event =
    Tick
  | Complete pid
  | Call_analyze url "string option"
  | Call_load url "string option"
  | Call_clearCaches

definition step :: "world \<Rightarrow> nat \<Rightarrow> event \<Rightarrow> machine \<Rightarrow> machine" where
  "step w fuel e m =
     (case e of
        Tick \<Rightarrow>
          (case microtasks m of
             [] \<Rightarrow> m
           | j # js \<Rightarrow> run_job w fuel j (m\<lparr>microtasks := js\<rparr>))
      | Complete p \<Rightarrow>
          (case origin (store m) p of
             Some (Outside r) \<Rightarrow> settle p r m
           | _ \<Rightarrow> m)
      | Call_analyze u c \<Rightarrow> invoke w fuel (Analyzer_analyze u c) m
      | Call_load u c \<Rightarrow> invoke w fuel (Analyzer_load u c) m
      | Call_clearCaches \<Rightarrow>
          m\<lparr>store := (store m)
              \<lparr>contexts := (contexts (store m))(next_cid (store m) \<mapsto>
                             clearCaches (the_context (store m) (analyzer (store m)))),
               analyzer := next_cid (store m),
               next_cid := next_cid (store m) + 1\<rparr>\<rparr>)"

definition run :: "world \<Rightarrow> nat \<Rightarrow> event list \<Rightarrow> machine \<Rightarrow> machine" where
  "run w fuel es m = fold (step w fuel) es m"

text \<open>A new \<^verbatim>\<open>Analyzer\<close> (lines 70-72) on an idle machine.\<close>

definition new_Analyzer :: "options \<Rightarrow> machine" where
  "new_Analyzer opts =
     \<lparr>store = \<lparr>analyzer = 0, contexts = [0 \<mapsto> new_AnalyzerCacheContext opts], next_cid = 1,
               sdocs = Map.empty, next_sd = 0, visited_sets = Map.empty, next_vid = 0,
               documents = [], settled = Map.empty, origin = Map.empty, next_pid = 0,
               fuel_exhausted = False\<rparr>,
      reactions = (\<lambda>_. []), microtasks = [], all_remaining = (\<lambda>_. 0)\<rparr>"


section \<open>Offsets and source positions\<close>

text \<open>
  Modelled from the spec: \<^verbatim>\<open>ParsedDocument.offsetToSourcePosition\<close> and
  \<^verbatim>\<open>ParsedDocument.sourcePositionToOffset\<close>, of which the sources hold the declaration
  only (\<^verbatim>\<open>src/unnamed/part_002\<close>). The spec (section 3): \<^verbatim>\<open>newlineIndexes\<close> are the
  offsets of every newline character in \<^verbatim>\<open>contents\<close>, used to translate between offsets
  and (line, column) positions. A position counts lines and columns from zero: the line
  of an offset is the number of newlines before it, its column the distance from the
  start of that line. The spec says nothing about a line beyond the last one;
  \<^verbatim>\<open>line_start\<close> puts it at the end of the contents.
\<close>

definition newlineIndexes :: "string \<Rightarrow> nat list" where
  "newlineIndexes contents = [i \<leftarrow> [0..<length contents]. contents ! i = CHR 0x0A]"

definition line_start :: "string \<Rightarrow> nat \<Rightarrow> nat" where
  "line_start contents l =
     (if l = 0 then 0
      else if l \<le> length (newlineIndexes contents) then newlineIndexes contents ! (l - 1) + 1
      else length contents)"

definition line_end :: "string \<Rightarrow> nat \<Rightarrow> nat" where
  "line_end contents l =
     (if l < length (newlineIndexes contents) then newlineIndexes contents ! l
      else length contents)"

definition offsetToSourcePosition :: "string \<Rightarrow> nat \<Rightarrow> source_position" where
  "offsetToSourcePosition contents offset =
     (let l = length [i \<leftarrow> newlineIndexes contents. i < offset]
      in \<lparr>line = l, column = offset - line_start contents l\<rparr>)"

definition sourcePositionToOffset :: "string \<Rightarrow> source_position \<Rightarrow> nat" where
  "sourcePositionToOffset contents position =
     line_start contents (line position) + column position"

text \<open>
  A valid offset points into the contents or just behind them; a valid position names
  an existing line and a column on it (the newline that ends the line included).
\<close>

definition valid_offset :: "string \<Rightarrow> nat \<Rightarrow> bool" where
  "valid_offset contents offset = (offset \<le> length contents)"

definition valid_position :: "string \<Rightarrow> source_position \<Rightarrow> bool" where
  "valid_position contents position =
     (line position \<le> length (newlineIndexes contents) \<and>
      line_start contents (line position) + column position \<le> line_end contents (line position))"

section \<open>Example inputs\<close>

text \<open>
  A loader that has every file but \<^verbatim>\<open>missing.html\<close>, parsers that accept everything,
  and scanners that find two imports of \<^verbatim>\<open>b.html\<close> in \<^verbatim>\<open>a.html\<close>, an import of
  \<^verbatim>\<open>missing.html\<close> in \<^verbatim>\<open>p.html\<close>, an import of \<^verbatim>\<open>x.foo\<close> in \<^verbatim>\<open>q.html\<close>, and a lazy import
  of \<^verbatim>\<open>d.html\<close> besides an import of \<^verbatim>\<open>b.html\<close> in \<^verbatim>\<open>c.html\<close>.
\<close>

definition example_loader :: url_loader where
  "example_loader =
     \<lparr>canLoad = (\<lambda>u. True),
      loader_load = (\<lambda>u. if u = ''missing.html'' then Inl (Error ''not found'') else Inr u)\<rparr>"

definition example_options :: options where
  "example_options =
     \<lparr>urlLoader = example_loader, urlResolver = None, opt_parsers = None,
      opt_scanners = None, opt_lazyEdges = None\<rparr>"

definition href :: source_range where
  "href = \<lparr>sr_file = ''p.html'', range_start = \<lparr>line = 0, column = 24\<rparr>,
           range_end = \<lparr>line = 0, column = 36\<rparr>\<rparr>"

definition example_features :: "url \<Rightarrow> scanned_feature list" where
  "example_features u =
     (if u = ''a.html''
      then [ScannedImport ''html-import'' ''b.html'' None None None,
            ScannedImport ''html-import'' ''b.html'' None None None]
      else if u = ''p.html'' then [ScannedImport ''html-import'' ''missing.html'' (Some href) None None]
      else if u = ''q.html'' then [ScannedImport ''html-import'' ''x.foo'' None None None]
      else if u = ''c.html''
      then [ScannedImport ''lazy-html-import'' ''d.html'' None None None,
            ScannedImport ''html-import'' ''b.html'' None None None]
      else [])"

definition example_world :: world where
  "example_world =
     \<lparr>parser_parse = (\<lambda>p c u ii.
        Inr \<lparr>pd_type = drop 1 (extname u), pd_url = u, pd_contents = c,
             pd_isInline = (ii \<noteq> None), pd_inlineInfo = ii\<rparr>),
      scan_fn = (\<lambda>d ss. Inr (example_features (pd_url d))),
      resolve_lookups = (\<lambda>d. import_urls (features d)),
      error_stack = (\<lambda>e. ''Error: '' @ thrown_text e)\<rparr>"





section \<open>Invariants and example runs\<close>

subsection \<open>Invariants of the store\<close>

text \<open>
  What the value of a fulfilled promise is, by the call that created the promise:
  \<^verbatim>\<open>_scan\<close> yields a scanned document, which is then the value of the promise cached
  for the URL in \<^verbatim>\<open>scannedDocumentPromises\<close>, or \<^verbatim>\<open>'visited'\<close>, and then the URL is in the
  visited set it was given; \<^verbatim>\<open>analyze\<close> yields the value of the promise cached for the
  resolved URL in \<^verbatim>\<open>analyzedDocumentPromises\<close>; \<^verbatim>\<open>load\<close> with provided contents yields
  these contents.
\<close>

fun is_Scanned :: "val \<Rightarrow> bool" where
  "is_Scanned (Scanned d) = True"
| "is_Scanned v = False"

definition cached :: "state \<Rightarrow> cid \<Rightarrow> url \<Rightarrow> val \<Rightarrow> bool" where
  "cached s this u v =
     (\<exists>ctx sp. contexts s this = Some ctx \<and>
        map_of (scannedDocumentPromises (c_cache ctx)) u = Some sp \<and>
        settled s sp = Some (Fulfilled v))"

definition analyzed :: "state \<Rightarrow> cid \<Rightarrow> url \<Rightarrow> val \<Rightarrow> bool" where
  "analyzed s this u v =
     (\<exists>ctx p. contexts s this = Some ctx \<and>
        map_of (analyzedDocumentPromises (c_cache ctx)) (resolveUrl ctx u) = Some p \<and>
        settled s p = Some (Fulfilled v))"

definition in_visited :: "state \<Rightarrow> vid option \<Rightarrow> url \<Rightarrow> bool" where
  "in_visited s vo u =
     (case vo of Some v \<Rightarrow> v < next_vid s \<and> u \<in> set (the_visited s v) | None \<Rightarrow> False)"

fun value_ok :: "call \<Rightarrow> state \<Rightarrow> val \<Rightarrow> bool" where
  "value_ok (Scan this u c vo) s v =
     ((is_Scanned v \<and> cached s this u v) \<or> (v = Visited \<and> in_visited s vo u))"
| "value_ok (Analyze this u c) s v = analyzed s this u v"
| "value_ok (Scan_async this u c) s v = is_Scanned v"
| "value_ok (ScanDocument this d ac) s v = is_Scanned v"
| "value_ok (Load this u (Some c)) s v = (v = Str c)"
| "value_ok c s v = True"

text \<open>An outcome fits a promise: the promise of a call, or of an operation outside.\<close>

definition typed :: "state \<Rightarrow> pid \<Rightarrow> outcome \<Rightarrow> bool" where
  "typed s p r =
     (case origin s p of
        Some (Called c) \<Rightarrow> (case r of Fulfilled v \<Rightarrow> value_ok c s v | Rejected e \<Rightarrow> True)
      | Some (Outside r0) \<Rightarrow> r = r0
      | None \<Rightarrow> True)"

definition scan_promise :: "state \<Rightarrow> pid \<Rightarrow> bool" where
  "scan_promise s p = (\<exists>this u c. origin s p = Some (Called (Scan_async this u c)))"

text \<open>
  \<^verbatim>\<open>grows s s'\<close>: \<open>s'\<close> is a later store than \<open>s\<close>. Promises and contexts are only added,
  a settled promise keeps its outcome, an entry of a cache keeps its value
  (\<^verbatim>\<open>dependenciesScanned\<close> apart, which \<^verbatim>\<open>_scanDependenciesOfToplevelDoc\<close> overwrites), a
  context keeps its resolver, visited sets only gain members and the documents
  constructed are only added to.
\<close>

definition entries_le :: "('k \<times> 'v) list \<Rightarrow> ('k \<times> 'v) list \<Rightarrow> bool" where
  "entries_le m m' = (\<forall>k v. map_of m k = Some v \<longrightarrow> map_of m' k = Some v)"

definition cache_le :: "analysis_cache \<Rightarrow> analysis_cache \<Rightarrow> bool" where
  "cache_le c c' =
     (entries_le (parsedDocumentPromises c) (parsedDocumentPromises c') \<and>
      entries_le (scannedDocumentPromises c) (scannedDocumentPromises c') \<and>
      entries_le (analyzedDocumentPromises c) (analyzedDocumentPromises c') \<and>
      entries_le (scannedDocuments c) (scannedDocuments c') \<and>
      entries_le (analyzedDocuments c) (analyzedDocuments c'))"

definition grows :: "state \<Rightarrow> state \<Rightarrow> bool" where
  "grows s s' =
     (next_pid s \<le> next_pid s' \<and> next_cid s \<le> next_cid s' \<and> next_vid s \<le> next_vid s' \<and>
      (\<forall>v. v < next_vid s \<longrightarrow> set (the_visited s v) \<subseteq> set (the_visited s' v)) \<and>
      (\<forall>p. p < next_pid s \<longrightarrow> origin s' p = origin s p) \<and>
      (\<forall>p r. settled s p = Some r \<longrightarrow> settled s' p = Some r) \<and>
      (\<forall>g c. contexts s g = Some c \<longrightarrow>
         (\<exists>c'. contexts s' g = Some c' \<and> cache_le (c_cache c) (c_cache c') \<and>
               c_resolver c' = c_resolver c)) \<and>
      (\<exists>ds. documents s' = documents s @ ds))"

text \<open>
  The invariant of the store: promises are allocated in order, every settled promise
  holds an outcome that fits it, the contexts are those below \<^verbatim>\<open>next_cid\<close>, every promise
  cached in \<^verbatim>\<open>scannedDocumentPromises\<close> is one of the \<^verbatim>\<open>async\<close> arrow of \<^verbatim>\<open>_scan\<close>, and at most
  one \<^verbatim>\<open>Document\<close> has been constructed per context and URL, which \<^verbatim>\<open>analyzedDocuments\<close>
  then records.
\<close>

definition docs_for :: "state \<Rightarrow> cid \<Rightarrow> url \<Rightarrow> analyzed_document list" where
  "docs_for s g u = [d \<leftarrow> documents s. doc_analyzer d = g \<and> doc_url d = u]"

definition wf_core :: "state \<Rightarrow> bool" where
  "wf_core s =
     ((\<forall>p. next_pid s \<le> p \<longrightarrow> origin s p = None \<and> settled s p = None) \<and>
      (\<forall>p r. settled s p = Some r \<longrightarrow> typed s p r) \<and>
      (\<forall>g. (contexts s g \<noteq> None) = (g < next_cid s)) \<and>
      analyzer s < next_cid s \<and>
      (\<forall>g c u p. contexts s g = Some c \<longrightarrow>
         map_of (scannedDocumentPromises (c_cache c)) u = Some p \<longrightarrow> scan_promise s p) \<and>
      (\<forall>d \<in> set (documents s). doc_analyzer d < next_cid s) \<and>
      (\<forall>g u. length (docs_for s g u) \<le> 1 \<and>
         (docs_for s g u \<noteq> [] \<longrightarrow> has (analyzedDocuments (the_cache s g)) u)))"

text \<open>
  The promises cached in \<^verbatim>\<open>parsedDocumentPromises\<close>, \<^verbatim>\<open>analyzedDocumentPromises\<close> and
  \<^verbatim>\<open>dependenciesScanned\<close> have been created.
\<close>

definition cached_promises :: "analysis_cache \<Rightarrow> pid set" where
  "cached_promises c =
     {p. \<exists>u. map_of (parsedDocumentPromises c) u = Some p \<or>
             map_of (analyzedDocumentPromises c) u = Some p \<or>
             map_of (dependenciesScanned c) u = Some p}"

definition wf_cached :: "state \<Rightarrow> bool" where
  "wf_cached s =
     (\<forall>g c p. contexts s g = Some c \<longrightarrow> p \<in> cached_promises (c_cache c) \<longrightarrow> p < next_pid s)"

definition wf_store :: "state \<Rightarrow> bool" where
  "wf_store s = (wf_core s \<and> wf_cached s)"

text \<open>A call is made on a context that exists, with a visited set that exists.\<close>

fun this_of :: "call \<Rightarrow> cid option" where
  "this_of (Analyzer_analyze u c) = None"
| "this_of (Analyzer_load u c) = None"
| "this_of (Analyze this u c) = Some this"
| "this_of (Analyze_async this u ru c) = Some this"
| "this_of (Scan this u c v) = Some this"
| "this_of (Scan_async this u c) = Some this"
| "this_of (ScanInlineSource this t c u v ii ac) = Some this"
| "this_of (ScanDocument this d ac) = Some this"
| "this_of (ScanDependenciesOfToplevelDoc this d v) = Some this"
| "this_of (ScanDependencies this d v) = Some this"
| "this_of (ScanDependency this d i v) = Some this"
| "this_of (ScanInlineDocument this d i cd ws v) = Some this"
| "this_of (ScanImport this d i ws v) = Some this"
| "this_of (Load this u c) = Some this"
| "this_of (Parse this u c) = Some this"
| "this_of (Parse_async this u c) = Some this"
| "this_of (GetScannedFeatures this d) = Some this"

fun vid_of :: "call \<Rightarrow> vid option" where
  "vid_of (Scan this u c vo) = vo"
| "vid_of (ScanInlineSource this t c u v ii ac) = Some v"
| "vid_of (ScanDependenciesOfToplevelDoc this d v) = Some v"
| "vid_of (ScanDependencies this d v) = Some v"
| "vid_of (ScanDependency this d i v) = Some v"
| "vid_of (ScanInlineDocument this d i cd ws v) = Some v"
| "vid_of (ScanImport this d i ws v) = Some v"
| "vid_of c = None"

definition call_ok :: "call \<Rightarrow> state \<Rightarrow> bool" where
  "call_ok c s =
     ((case this_of c of Some g \<Rightarrow> g < next_cid s | None \<Rightarrow> True) \<and>
      (case vid_of c of Some v \<Rightarrow> v < next_vid s | None \<Rightarrow> True))"

text \<open>
  The \<^verbatim>\<open>async\<close> arrows suspend at \<^verbatim>\<open>await Promise.resolve()\<close> before they do anything, so
  the caches are the same when the arrow has been called.
\<close>

fun is_arrow :: "call \<Rightarrow> bool" where
  "is_arrow (Analyze_async this u ru c) = True"
| "is_arrow (Scan_async this u c) = True"
| "is_arrow (Parse_async this u c) = True"
| "is_arrow c = False"

definition post :: "call \<Rightarrow> state \<Rightarrow> state \<Rightarrow> bool" where
  "post c s s' = (is_arrow c \<longrightarrow> contexts s' = contexts s)"

text \<open>
  \<^verbatim>\<open>ok k self s\<close>: run from the store \<open>s\<close>, or from any later store once it has been
  suspended, the rest \<open>k\<close> of a function body keeps the invariant, only moves to later
  stores, and settles its promise \<open>self\<close> with an outcome that fits it.
\<close>

primrec ok :: "prog \<Rightarrow> pid \<Rightarrow> state \<Rightarrow> bool" where
  "ok (Return v) self s = typed s self (Fulfilled v)"
| "ok (Throw e) self s = typed s self (Rejected e)"
| "ok (ReturnPromise p) self s =
     (p < next_pid s \<and> (\<forall>r s'. grows s s' \<and> wf_store s' \<and> settled s' p = Some r \<longrightarrow> typed s' self r))"
| "ok (Await p k) self s =
     (p < next_pid s \<and>
      (\<forall>r s'. grows s s' \<and> wf_store s' \<and> settled s' p = Some r \<longrightarrow> ok (k r) self s'))"
| "ok (Read k) self s = ok (k s) self s"
| "ok (Write f k) self s = (grows s (f s) \<and> wf_store (f s) \<and> ok k self (f s))"
| "ok (Async c k) self s =
     (call_ok c s \<and>
      (\<forall>s'. grows (new_promise (Called c) s) s' \<and> wf_store s' \<and> post c s s' \<longrightarrow>
            ok (k (next_pid s)) self s'))"
| "ok (External r k) self s = ok (k (next_pid s)) self (new_promise (Outside r) s)"
| "ok (PromiseResolve v k) self s =
     ok (k (next_pid s)) self (new_settled_promise (Fulfilled v) s)"
| "ok (PromiseAll ps k) self s =
     ((\<forall>p \<in> set ps. p < next_pid s) \<and> ok (k (next_pid s)) self (new_all_promise ps s))"
| "ok (Then p f k) self s =
     (p < next_pid s \<and> (\<forall>v s'. grows s s' \<and> wf_store s' \<longrightarrow> grows s' (f v s') \<and> wf_store (f v s')) \<and>
      ok k self s)"

text \<open>Two stores that differ in scanned documents and the fuel flag only.\<close>

definition same_core :: "state \<Rightarrow> state \<Rightarrow> bool" where
  "same_core s s' =
     (next_pid s' = next_pid s \<and> next_cid s' = next_cid s \<and> origin s' = origin s \<and>
      settled s' = settled s \<and> contexts s' = contexts s \<and> documents s' = documents s \<and>
      analyzer s' = analyzer s \<and> visited_sets s' = visited_sets s \<and> next_vid s' = next_vid s)"

text \<open>\<^verbatim>\<open>self\<close> is the promise of a running call \<open>c\<close>.\<close>

definition task :: "state \<Rightarrow> pid \<Rightarrow> call \<Rightarrow> bool" where
  "task s self c = (wf_store s \<and> origin s self = Some (Called c) \<and> self < next_pid s \<and> call_ok c s)"

text \<open>\<open>p\<close> is the promise of a call \<open>c\<close>.\<close>

definition known :: "state \<Rightarrow> pid \<Rightarrow> call \<Rightarrow> bool" where
  "known s p c = (origin s p = Some (Called c) \<and> p < next_pid s)"

subsection \<open>Invariants of the machine\<close>

text \<open>
  The invariant of the machine: the store is well formed, every reaction is
  registered on a promise that has been created, and every reaction and every job
  of the microtask queue keeps the store well formed when it runs.
\<close>

definition reaction_ok :: "pid \<Rightarrow> reaction \<Rightarrow> state \<Rightarrow> bool" where
  "reaction_ok p x s =
     (p < next_pid s \<and>
      (case x of
        Resume k self \<Rightarrow>
          self < next_pid s \<and>
          (\<forall>r s'. grows s s' \<and> wf_store s' \<and> settled s' p = Some r \<longrightarrow> ok (k r) self s')
      | Adopt q \<Rightarrow>
          q < next_pid s \<and>
          (\<forall>r s'. grows s s' \<and> wf_store s' \<and> settled s' p = Some r \<longrightarrow> typed s' q r)
      | AllElement q \<Rightarrow> q < next_pid s \<and> origin s q = None
      | Callback f \<Rightarrow>
          (\<forall>v s'. grows s s' \<and> wf_store s' \<longrightarrow> grows s' (f v s') \<and> wf_store (f v s'))))"

definition job_ok :: "job \<Rightarrow> state \<Rightarrow> bool" where
  "job_ok j s =
     (case j of
        Reaction x r \<Rightarrow>
          (case x of
             Resume k self \<Rightarrow>
               self < next_pid s \<and> (\<forall>s'. grows s s' \<and> wf_store s' \<longrightarrow> ok (k r) self s')
           | Adopt q \<Rightarrow> q < next_pid s \<and> typed s q r
           | AllElement q \<Rightarrow> q < next_pid s \<and> origin s q = None
           | Callback f \<Rightarrow>
               (\<forall>v s'. grows s s' \<and> wf_store s' \<longrightarrow> grows s' (f v s') \<and> wf_store (f v s')))
      | ResolveThenable q p \<Rightarrow>
          q < next_pid s \<and> p < next_pid s \<and>
          (\<forall>r s'. grows s s' \<and> wf_store s' \<and> settled s' p = Some r \<longrightarrow> typed s' q r))"

definition machine_ok :: "machine \<Rightarrow> bool" where
  "machine_ok m =
     (wf_store (store m) \<and>
      (\<forall>p x. x \<in> set (reactions m p) \<longrightarrow> reaction_ok p x (store m)) \<and>
      (\<forall>j \<in> set (microtasks m). job_ok j (store m)))"

definition handler_ok :: "(call \<Rightarrow> pid \<Rightarrow> machine \<Rightarrow> machine) \<Rightarrow> bool" where
  "handler_ok h =
     (\<forall>c q m. machine_ok m \<and> task (store m) q c \<longrightarrow>
        machine_ok (h c q m) \<and> grows (store m) (store (h c q m)) \<and>
        post c (store m) (store (h c q m)))"

subsection \<open>Runs of the example analyzer\<close>

text \<open>
  Runs of the example analyzer on \<^verbatim>\<open>a.html\<close>, which imports \<^verbatim>\<open>b.html\<close> twice:
  \<^verbatim>\<open>trace_a_scanned\<close> up to the scan of \<^verbatim>\<open>a.html\<close> itself; \<^verbatim>\<open>trace_a_second_import\<close> up to the
  microtask that resumes \<^verbatim>\<open>_scanImport\<close> for the second import; \<^verbatim>\<open>trace_a_loading\<close> until
  the microtask queue is empty and \<^verbatim>\<open>b.html\<close> is still being loaded;
  \<^verbatim>\<open>trace_a_first_import\<close> up to the microtask that resumes \<^verbatim>\<open>_scanImport\<close> for the first
  import; \<^verbatim>\<open>trace_a\<close> to the end of the analysis. \<^verbatim>\<open>trace_c\<close> is the analysis of \<^verbatim>\<open>c.html\<close>.
\<close>

definition trace_a_scanned :: "event list" where
  "trace_a_scanned =
     Call_analyze ''a.html'' None # replicate 6 Tick @ [Complete 11] @ replicate 6 Tick @
     [Complete 14]"

definition trace_a_second_import :: "event list" where
  "trace_a_second_import = trace_a_scanned @ replicate 6 Tick"

definition trace_a_loading :: "event list" where
  "trace_a_loading = trace_a_second_import @ replicate 6 Tick"

definition trace_a_first_import :: "event list" where
  "trace_a_first_import =
     trace_a_loading @ [Complete 30] @ replicate 6 Tick @ [Complete 33] @ replicate 10 Tick"

definition trace_a :: "event list" where
  "trace_a = trace_a_first_import @ replicate 13 Tick"

definition trace_c :: "event list" where
  "trace_c =
     Call_analyze ''c.html'' None # replicate 6 Tick @ [Complete 11] @ replicate 6 Tick @
     [Complete 14] @ replicate 9 Tick @ [Complete 28] @ replicate 6 Tick @ [Complete 31] @
     replicate 22 Tick"

definition example_run :: "event list \<Rightarrow> machine" where
  "example_run es = run example_world 10 es (new_Analyzer example_options)"


text \<open>The parsed document of \<^verbatim>\<open>a.html\<close> in the example.\<close>

definition a_html :: parsed_document where
  "a_html = \<lparr>pd_type = ''html'', pd_url = ''a.html'', pd_contents = ''a.html'',
             pd_isInline = False, pd_inlineInfo = None\<rparr>"

text \<open>
  The analysis of \<^verbatim>\<open>p.html\<close>, whose import cannot be loaded: up to the microtask that
  resumes \<^verbatim>\<open>_scanImport\<close> with the failure, and to its end.
\<close>

definition trace_p_failed :: "event list" where
  "trace_p_failed =
     Call_analyze ''p.html'' None # replicate 6 Tick @ [Complete 11] @ replicate 6 Tick @
     [Complete 14] @ replicate 8 Tick @ [Complete 27] @ replicate 5 Tick"

definition trace_p :: "event list" where
  "trace_p = trace_p_failed @ replicate 12 Tick"

definition fork_context :: "cache_context \<Rightarrow> state \<Rightarrow> state" where
  "fork_context x s = s\<lparr>contexts := (contexts s)(next_cid s \<mapsto> x), analyzer := next_cid s,
                         next_cid := next_cid s + 1\<rparr>"





text \<open>The URLs for which \<^verbatim>\<open>_scan\<close> and \<^verbatim>\<open>load\<close> have been called so far.\<close>

definition scan_requests :: "machine \<Rightarrow> url list" where
  "scan_requests m =
     concat (map (\<lambda>p. case origin (store m) p of
                          Some (Called (Scan this u c v)) \<Rightarrow> [u]
                        | _ \<Rightarrow> [])
               [0 ..< next_pid (store m)])"

definition load_requests :: "machine \<Rightarrow> url list" where
  "load_requests m =
     concat (map (\<lambda>p. case origin (store m) p of
                          Some (Called (Load this u c)) \<Rightarrow> [u]
                        | _ \<Rightarrow> [])
               [0 ..< next_pid (store m)])"

text \<open>
  The calls of \<^verbatim>\<open>async\<close> functions made so far, in the order in which they were made,
  and among them the calls of \<^verbatim>\<open>_scanImport\<close>, \<^verbatim>\<open>_scan\<close> and \<^verbatim>\<open>load\<close>.
\<close>

definition calls_made :: "state \<Rightarrow> call list" where
  "calls_made s =
     concat (map (\<lambda>p. case origin s p of Some (Called c) \<Rightarrow> [c] | _ \<Rightarrow> [])
               [0 ..< next_pid s])"

fun is_scan_or_load :: "call \<Rightarrow> bool" where
  "is_scan_or_load (ScanImport this d i ws v) = True"
| "is_scan_or_load (Scan this u c v) = True"
| "is_scan_or_load (Load this u c) = True"
| "is_scan_or_load c = False"

definition scans_and_loads_made :: "state \<Rightarrow> call list" where
  "scans_and_loads_made s = filter is_scan_or_load (calls_made s)"

text \<open>
  The calls that scanning the dependencies of the scanned document \<open>sd\<close> is to make for
  its imports: for every feature that is a \<^verbatim>\<open>ScannedImport\<close> of a type other than
  \<^verbatim>\<open>lazy-html-import\<close>, in the order of the features, \<^verbatim>\<open>_scanImport\<close> of the feature and
  \<^verbatim>\<open>_scan\<close> of its resolved URL with the visited set; for any other feature, none.
\<close>

definition import_scan_of :: "cid \<Rightarrow> sd_ref \<Rightarrow> vid \<Rightarrow> state \<Rightarrow> nat \<Rightarrow> call list" where
  "import_scan_of this sd visited s i =
     (case the_feature s sd i of
        ScannedImport t u usr sr d \<Rightarrow>
          if t \<noteq> ''lazy-html-import''
          then [ScanImport this sd i sd visited,
                Scan this (resolveUrl (the_context s this) u) None (Some visited)]
          else []
      | _ \<Rightarrow> [])"

definition import_scans :: "cid \<Rightarrow> sd_ref \<Rightarrow> vid \<Rightarrow> state \<Rightarrow> call list" where
  "import_scans this sd visited s =
     concat (map (import_scan_of this sd visited s) [0 ..< length (features (the_sdoc s sd))])"

text \<open>No promise beyond the last one created has an origin.\<close>

definition fresh :: "state \<Rightarrow> bool" where
  "fresh s = (\<forall>p\<ge>next_pid s. origin s p = None)"

text \<open>
  What a piece of code running from the store \<open>s\<close> to the store \<open>s'\<close> has done, as far
  as the imports of a scanned document of the context \<open>this\<close> are concerned: it has
  made the calls \<open>cs\<close> of \<^verbatim>\<open>_scanImport\<close>, \<^verbatim>\<open>_scan\<close> and \<^verbatim>\<open>load\<close>, and has left the scanned
  documents and the resolver alone.
\<close>

definition effect :: "cid \<Rightarrow> state \<Rightarrow> call list \<Rightarrow> state \<Rightarrow> bool" where
  "effect this s cs s' =
     (fresh s' \<and> sdocs s' = sdocs s \<and>
      resolveUrl (the_context s' this) = resolveUrl (the_context s this) \<and>
      scans_and_loads_made s' = scans_and_loads_made s @ cs)"

text \<open>The operations on the store that make no call.\<close>

definition silent :: "cid \<Rightarrow> (state \<Rightarrow> state) \<Rightarrow> bool" where
  "silent this f = (\<forall>s. fresh s \<longrightarrow> effect this s [] (f s))"

text \<open>
  \<open>does this prog h self m cs\<close>: run on the machine \<open>m\<close>, the program makes the calls
  \<open>cs\<close> of \<^verbatim>\<open>_scanImport\<close>, \<^verbatim>\<open>_scan\<close> and \<^verbatim>\<open>load\<close> before it suspends or ends.
\<close>

definition does ::
  "cid \<Rightarrow> prog \<Rightarrow> (call \<Rightarrow> pid \<Rightarrow> machine \<Rightarrow> machine) \<Rightarrow> pid \<Rightarrow> machine \<Rightarrow> call list \<Rightarrow> bool"
where
  "does this prog h self m cs =
     (fresh (store m) \<longrightarrow> effect this (store m) cs (store (exec prog h self m)))"

text \<open>
  A handler that makes no call of \<^verbatim>\<open>_scanImport\<close>, \<^verbatim>\<open>_scan\<close> or \<^verbatim>\<open>load\<close> when it runs \<open>c\<close>.
\<close>

definition quiet :: "cid \<Rightarrow> (call \<Rightarrow> pid \<Rightarrow> machine \<Rightarrow> machine) \<Rightarrow> call \<Rightarrow> bool" where
  "quiet this h c = (\<forall>q m. fresh (store m) \<longrightarrow> effect this (store m) [] (store (h c q m)))"

section \<open>The default registries\<close>

lemma default_parsers_lookup:
  "(\<exists>p. map_of default_parsers t = Some p) = (t \<in> {''html'', ''js'', ''css'', ''json''})"
  by (simp add: default_parsers_def)

lemma default_scanners_lookup:
  "(\<exists>ss. map_of (getDefaultScanners le) t = Some ss) = (t \<in> {''html'', ''js''})"
  by (simp add: getDefaultScanners_def)

text \<open>
  C7, as the claim states it, fails: with the default configuration a document of type
  \<^verbatim>\<open>typescript\<close> cannot be parsed. No parser is registered under that tag, and
  \<^verbatim>\<open>_parseContents\<close> throws \<^verbatim>\<open>NoKnownParserError\<close>.
\<close>

theorem typescript_not_parsed_by_default:
  "map_of (c_parsers (new_AnalyzerCacheContext example_options)) ''typescript'' = None \<and>
   parseContents example_world (new_AnalyzerCacheContext example_options)
     ''typescript'' ''let x: number = 1;'' ''x.ts'' None
   = Inl (NoKnownParserError ''No parser for for file type typescript'')"
  by (simp add: new_AnalyzerCacheContext_def example_options_def default_parsers_def
      parseContents_def)

text \<open>
  C7, amended: when the options give no parsers and no scanners, the context has the
  default registries; these have a parser exactly for the tags html, js, css and json
  and scanners exactly for html and js. For \<^verbatim>\<open>typescript\<close> there is neither: parsing
  contents of that type throws \<^verbatim>\<open>NoKnownParserError\<close>, and no scanners are found.
\<close>

theorem default_registries:
  "c_parsers (new_AnalyzerCacheContext (opts\<lparr>opt_parsers := None\<rparr>)) = default_parsers \<and>
   c_scanners (new_AnalyzerCacheContext (opts\<lparr>opt_scanners := None\<rparr>))
     = getDefaultScanners (opt_lazyEdges opts) \<and>
   (\<exists>p. map_of default_parsers t = Some p) = (t \<in> {''html'', ''js'', ''css'', ''json''}) \<and>
   (\<exists>ss. map_of (getDefaultScanners le) t = Some ss) = (t \<in> {''html'', ''js''}) \<and>
   parseContents w (new_AnalyzerCacheContext (opts\<lparr>opt_parsers := None\<rparr>)) ''typescript'' c u ii
     = Inl (NoKnownParserError ''No parser for for file type typescript'') \<and>
   scanners_for (new_AnalyzerCacheContext (opts\<lparr>opt_scanners := None\<rparr>)) ''typescript'' = None"
proof -
  have "map_of default_parsers ''typescript'' = None"
    by (simp add: default_parsers_def)
  moreover have "map_of (getDefaultScanners (opt_lazyEdges opts)) ''typescript'' = None"
    by (simp add: getDefaultScanners_def)
  ultimately show ?thesis
    using default_parsers_lookup [of t] default_scanners_lookup [of le t]
    by (simp add: new_AnalyzerCacheContext_def parseContents_def scanners_for_def)
qed

section \<open>Offsets and positions round-trip\<close>

lemma sorted_newlineIndexes: "sorted (newlineIndexes c)"
  by (simp add: newlineIndexes_def sorted_wrt_filter)

lemma distinct_newlineIndexes: "distinct (newlineIndexes c)"
  by (simp add: newlineIndexes_def)

lemma filter_less_take:
  assumes "sorted xs" "distinct xs"
  shows "[i \<leftarrow> xs. i < (n::nat)] = take (length [i \<leftarrow> xs. i < n]) xs"
  using assms
proof (induction xs)
  case Nil
  then show ?case by simp
next
  case (Cons x xs)
  show ?case
  proof (cases "x < n")
    case True
    with Cons show ?thesis by simp
  next
    case False
    with Cons.prems have "\<forall>y \<in> set xs. \<not> y < n" by auto
    then have "[i \<leftarrow> xs. i < n] = []" by (simp add: filter_empty_conv)
    with False show ?thesis by simp
  qed
qed

lemma count_below:
  assumes "l \<le> length xs"
    and "\<And>j. j < l \<Longrightarrow> xs ! j < (n::nat)"
    and "\<And>j. l \<le> j \<Longrightarrow> j < length xs \<Longrightarrow> \<not> xs ! j < n"
  shows "length [i \<leftarrow> xs. i < n] = l"
proof -
  have "xs = take l xs @ drop l xs" by simp
  moreover have "[i \<leftarrow> take l xs. i < n] = take l xs"
    using assms(1,2) by (auto simp: filter_id_conv in_set_conv_nth)
  moreover have "[i \<leftarrow> drop l xs. i < n] = []"
    using assms(1,3) by (auto simp: filter_empty_conv in_set_conv_nth)
  ultimately have "[i \<leftarrow> xs. i < n] = take l xs" by (metis filter_append append_Nil2)
  then show ?thesis using assms(1) by simp
qed

lemma line_start_le_offset:
  "line_start c (length [i \<leftarrow> newlineIndexes c. i < off]) \<le> off"
proof -
  let ?nl = "newlineIndexes c"
  let ?l = "length [i \<leftarrow> ?nl. i < off]"
  have lle: "?l \<le> length ?nl" by simp
  show ?thesis
  proof (cases "?l = 0")
    case True
    then show ?thesis by (simp add: line_start_def)
  next
    case False
    have "[i \<leftarrow> ?nl. i < off] = take ?l ?nl"
      using filter_less_take [OF sorted_newlineIndexes distinct_newlineIndexes] by blast
    then have "?nl ! (?l - 1) \<in> set [i \<leftarrow> ?nl. i < off]"
      using False lle
      by (metis (no_types, lifting) diff_less in_set_conv_nth length_greater_0_conv
          length_take less_numeral_extra(1) list.size(3) nth_take)
    then have "?nl ! (?l - 1) < off" by simp
    with False lle show ?thesis by (simp add: line_start_def)
  qed
qed

lemma offset_roundtrip: "sourcePositionToOffset c (offsetToSourcePosition c off) = off"
  using line_start_le_offset [of c off]
  by (simp add: sourcePositionToOffset_def offsetToSourcePosition_def Let_def)

lemma position_roundtrip:
  assumes "valid_position c p"
  shows "offsetToSourcePosition c (sourcePositionToOffset c p) = p"
proof -
  let ?nl = "newlineIndexes c"
  let ?l = "line p"
  let ?o = "line_start c ?l + column p"
  from assms have l: "?l \<le> length ?nl" and le: "?o \<le> line_end c ?l"
    by (simp_all add: valid_position_def)
  have below: "?nl ! j < ?o" if "j < ?l" for j
  proof -
    have "?nl ! j \<le> ?nl ! (?l - 1)"
      using that l sorted_newlineIndexes [of c] by (auto intro!: sorted_nth_mono)
    also have "\<dots> < line_start c ?l" using that l by (simp add: line_start_def)
    finally show ?thesis by simp
  qed
  have above: "\<not> ?nl ! j < ?o" if "?l \<le> j" "j < length ?nl" for j
  proof -
    have "?o \<le> ?nl ! ?l" using le that by (simp add: line_end_def)
    also have "\<dots> \<le> ?nl ! j"
      using that sorted_newlineIndexes [of c] by (auto intro!: sorted_nth_mono)
    finally show ?thesis by simp
  qed
  have "length [i \<leftarrow> ?nl. i < ?o] = ?l"
    by (rule count_below [OF l below above])
  then show ?thesis
    by (simp add: offsetToSourcePosition_def sourcePositionToOffset_def Let_def)
qed

lemma offset_position_valid:
  assumes "valid_offset c off"
  shows "valid_position c (offsetToSourcePosition c off)"
proof -
  let ?nl = "newlineIndexes c"
  let ?l = "length [i \<leftarrow> ?nl. i < off]"
  have eq: "[i \<leftarrow> ?nl. i < off] = take ?l ?nl"
    using filter_less_take [OF sorted_newlineIndexes distinct_newlineIndexes] by blast
  have "off \<le> line_end c ?l"
  proof (cases "?l < length ?nl")
    case True
    have "\<not> ?nl ! ?l < off"
    proof
      assume "?nl ! ?l < off"
      then have "?nl ! ?l \<in> set [i \<leftarrow> ?nl. i < off]" using True by simp
      then have "?nl ! ?l \<in> set (take ?l ?nl)" using eq by simp
      then obtain j where "j < ?l" "?nl ! j = ?nl ! ?l"
        by (auto simp: in_set_conv_nth)
      then show False
        using True distinct_newlineIndexes [of c] by (auto simp: distinct_conv_nth)
    qed
    with True show ?thesis by (simp add: line_end_def)
  next
    case False
    with assms show ?thesis by (simp add: line_end_def valid_offset_def)
  qed
  with line_start_le_offset [of c off] show ?thesis
    by (simp add: valid_position_def offsetToSourcePosition_def Let_def)
qed

text \<open>
  C9: for the conversions as the spec describes them, converting a valid offset to a
  position and back gives the offset, and converting a valid position to an offset and
  back gives the position.
\<close>

theorem offset_position_inverse:
  "(valid_offset c off \<longrightarrow>
      sourcePositionToOffset c (offsetToSourcePosition c off) = off) \<and>
   (valid_position c p \<longrightarrow>
      offsetToSourcePosition c (sourcePositionToOffset c p) = p)"
  using offset_roundtrip position_roundtrip by blast

theorem offset_position_inverse_witness:
  "valid_offset ''ab\<newline>cd\<newline>'' 4 \<and>
   valid_position ''ab\<newline>cd\<newline>'' \<lparr>line = 1, column = 2\<rparr> \<and>
   offsetToSourcePosition ''ab\<newline>cd\<newline>'' 4 = \<lparr>line = 1, column = 1\<rparr> \<and>
   sourcePositionToOffset ''ab\<newline>cd\<newline>'' (offsetToSourcePosition ''ab\<newline>cd\<newline>'' 4) = 4 \<and>
   sourcePositionToOffset ''ab\<newline>cd\<newline>'' \<lparr>line = 1, column = 2\<rparr> = 5 \<and>
   offsetToSourcePosition ''ab\<newline>cd\<newline>'' (sourcePositionToOffset ''ab\<newline>cd\<newline>'' \<lparr>line = 1, column = 2\<rparr>)
     = \<lparr>line = 1, column = 2\<rparr>"
proof -
  have nl: "newlineIndexes ''ab\<newline>cd\<newline>'' = [2, 5]"
    by (simp add: newlineIndexes_def upt_rec)
  have v1: "valid_offset ''ab\<newline>cd\<newline>'' 4"
    by (simp add: valid_offset_def)
  have v2: "valid_position ''ab\<newline>cd\<newline>'' \<lparr>line = 1, column = 2\<rparr>"
    by (simp add: valid_position_def line_start_def line_end_def nl)
  have e1: "offsetToSourcePosition ''ab\<newline>cd\<newline>'' 4 = \<lparr>line = 1, column = 1\<rparr>"
    by (simp add: offsetToSourcePosition_def line_start_def nl)
  have e2: "sourcePositionToOffset ''ab\<newline>cd\<newline>'' \<lparr>line = 1, column = 2\<rparr> = 5"
    by (simp add: sourcePositionToOffset_def line_start_def nl)
  from v1 v2 e1 e2
    offset_position_inverse [of "''ab\<newline>cd\<newline>''" 4 "\<lparr>line = 1, column = 2\<rparr>"]
  show ?thesis by simp
qed

section \<open>Invalidation by \<^verbatim>\<open>fileChanged\<close>\<close>

lemma map_of_remove_keys:
  "map_of (remove_keys ks m) v = (if v \<in> set ks then None else map_of m v)"
  by (induction m) (auto simp: remove_keys_def)




section \<open>The store only grows\<close>

lemma grows_refl: "grows s s"
  by (simp add: grows_def cache_le_def entries_le_def)

lemma entries_le_trans: "entries_le a b \<Longrightarrow> entries_le b c \<Longrightarrow> entries_le a c"
  by (simp add: entries_le_def)

lemma cache_le_trans: "cache_le a b \<Longrightarrow> cache_le b c \<Longrightarrow> cache_le a c"
  unfolding cache_le_def by (blast intro: entries_le_trans)

lemma grows_trans:
  assumes "grows s s'" "grows s' s''"
  shows "grows s s''"
proof -
  have ctx: "\<exists>c''. contexts s'' g = Some c'' \<and> cache_le (c_cache c) (c_cache c'') \<and>
               c_resolver c'' = c_resolver c" if "contexts s g = Some c" for g c
  proof -
    from assms(1) that obtain c' where c': "contexts s' g = Some c'"
      "cache_le (c_cache c) (c_cache c')" "c_resolver c' = c_resolver c"
      unfolding grows_def by blast
    from assms(2) c'(1) obtain c'' where "contexts s'' g = Some c''"
      "cache_le (c_cache c') (c_cache c'')" "c_resolver c'' = c_resolver c'"
      unfolding grows_def by blast
    with c' show ?thesis by (auto intro: cache_le_trans)
  qed
  have docs: "\<exists>ds. documents s'' = documents s @ ds"
    using assms unfolding grows_def by auto
  have vis: "set (the_visited s v) \<subseteq> set (the_visited s'' v)" if "v < next_vid s" for v
  proof -
    have "set (the_visited s v) \<subseteq> set (the_visited s' v)" "v < next_vid s'"
      using assms(1) that unfolding grows_def by auto
    moreover from this(2) have "set (the_visited s' v) \<subseteq> set (the_visited s'' v)"
      using assms(2) unfolding grows_def by blast
    ultimately show ?thesis by blast
  qed
  have rest: "next_pid s \<le> next_pid s'' \<and> next_cid s \<le> next_cid s'' \<and>
      next_vid s \<le> next_vid s'' \<and>
      (\<forall>p. p < next_pid s \<longrightarrow> origin s'' p = origin s p) \<and>
      (\<forall>p r. settled s p = Some r \<longrightarrow> settled s'' p = Some r)"
    using assms unfolding grows_def by auto
  show ?thesis unfolding grows_def using ctx docs rest vis by blast
qed

lemma cached_grows: "grows s s' \<Longrightarrow> cached s this u v \<Longrightarrow> cached s' this u v"
  unfolding cached_def grows_def cache_le_def entries_le_def by metis

lemma analyzed_grows:
  assumes "grows s s'" "analyzed s this u v"
  shows "analyzed s' this u v"
proof -
  from assms(2) obtain ctx p where a: "contexts s this = Some ctx"
    "map_of (analyzedDocumentPromises (c_cache ctx)) (resolveUrl ctx u) = Some p"
    "settled s p = Some (Fulfilled v)"
    unfolding analyzed_def by blast
  from assms(1) a(1) obtain ctx' where c: "contexts s' this = Some ctx'"
    "cache_le (c_cache ctx) (c_cache ctx')" "c_resolver ctx' = c_resolver ctx"
    unfolding grows_def by blast
  have r: "resolveUrl ctx' u = resolveUrl ctx u" using c(3) by (simp add: resolveUrl_def)
  have "map_of (analyzedDocumentPromises (c_cache ctx')) (resolveUrl ctx' u) = Some p"
    using c(2) a(2) r by (simp add: cache_le_def entries_le_def)
  moreover have "settled s' p = Some (Fulfilled v)" using assms(1) a(3) by (simp add: grows_def)
  ultimately show ?thesis using c(1) unfolding analyzed_def by blast
qed

lemma in_visited_grows: "grows s s' \<Longrightarrow> in_visited s vo u \<Longrightarrow> in_visited s' vo u"
  unfolding in_visited_def grows_def by (auto split: option.splits)

lemma value_ok_grows: "grows s s' \<Longrightarrow> value_ok c s v \<Longrightarrow> value_ok c s' v"
  by (induction c s v rule: value_ok.induct) (auto intro: cached_grows in_visited_grows analyzed_grows)

lemma typed_grows:
  assumes "grows s s'" "p < next_pid s" "typed s p r"
  shows "typed s' p r"
proof -
  have o: "origin s' p = origin s p" using assms(1,2) by (simp add: grows_def)
  show ?thesis
    using assms(3) value_ok_grows [OF assms(1)] unfolding typed_def o
    by (auto split: option.splits source.splits outcome.splits)
qed

lemma same_core_value_ok: "same_core s s' \<Longrightarrow> value_ok c s' v = value_ok c s v"
  by (induction c s v rule: value_ok.induct)
     (simp_all add: same_core_def cached_def analyzed_def in_visited_def the_visited_def
        cong: option.case_cong)

lemma same_core_wf_c: "same_core s s' \<Longrightarrow> wf_core s' = wf_core s"
proof -
  assume c: "same_core s s'"
  have "typed s' p r = typed s p r" for p r
    using c same_core_value_ok [OF c]
    by (simp add: typed_def same_core_def cong: option.case_cong source.case_cong
        outcome.case_cong)
  with c show ?thesis
    by (simp add: same_core_def wf_core_def scan_promise_def docs_for_def the_cache_def
        the_context_def)
qed

lemma same_core_grows: "same_core s s' \<Longrightarrow> grows s s'"
  by (simp add: same_core_def grows_def cache_le_def entries_le_def the_visited_def)

lemma same_core_simps:
  "same_core s (new_ScannedDocument x s)"
  "same_core s (push_warning d y s)"
  "same_core s (assign_scannedDocument d i t s)"
  "same_core s (assign_callback d i val s)"
  "same_core s (s\<lparr>fuel_exhausted := b\<rparr>)"
  by (simp_all add: same_core_def new_ScannedDocument_def
      push_warning_def assign_scannedDocument_def assign_callback_def split: val.splits)

lemma scan_promise_lt_c: "wf_core s \<Longrightarrow> scan_promise s p \<Longrightarrow> p < next_pid s"
  unfolding wf_core_def scan_promise_def by (metis not_le option.distinct(1))

lemma scan_promise_mono: "grows s s' \<Longrightarrow> p < next_pid s \<Longrightarrow> scan_promise s' p = scan_promise s p"
  by (simp add: grows_def scan_promise_def)

lemma settled_lt_c: "wf_core s \<Longrightarrow> settled s p = Some r \<Longrightarrow> p < next_pid s"
  unfolding wf_core_def by (metis not_le option.distinct(1))

lemma typing_grows_c: "wf_core s \<Longrightarrow> grows s s' \<Longrightarrow> settled s p = Some r \<Longrightarrow> typed s' p r"
  using settled_lt_c typed_grows unfolding wf_core_def by blast

lemma wf_core_typing_c:
  assumes "wf_core s" "grows s s'"
    and "\<And>p r. settled s' p = Some r \<Longrightarrow> settled s p = Some r \<or> typed s' p r"
  shows "\<forall>p r. settled s' p = Some r \<longrightarrow> typed s' p r"
  using assms typing_grows_c by blast

lemma new_promise_ext: "grows s (new_promise src s)"
  by (simp add: grows_def new_promise_def cache_le_def entries_le_def the_visited_def)

lemma new_promise_inv_c:
  assumes "wf_core s"
  shows "wf_core (new_promise src s)"
proof -
  have lt: "p < next_pid s" if "settled s p = Some r" for p r
    using settled_lt_c [OF assms that] .
  have lt2: "p < next_pid s" if "scan_promise s p" for p
    using scan_promise_lt_c [OF assms that] .
  have t: "typed (new_promise src s) p r" if "settled s p = Some r" for p r
    using typing_grows_c [OF assms new_promise_ext that] .
  have sp: "scan_promise (new_promise src s) p" if "scan_promise s p" for p
    using that lt2 [OF that] by (auto simp: scan_promise_def new_promise_def)
  show ?thesis
    using assms t sp
    unfolding wf_core_def
    by (auto simp: new_promise_def docs_for_def the_cache_def the_context_def)
qed

lemma new_settled_promise_ext_c: "wf_core s \<Longrightarrow> grows s (new_settled_promise r s)"
  by (auto simp: grows_def new_settled_promise_def cache_le_def entries_le_def wf_core_def
      the_visited_def)

lemma new_settled_promise_inv_c:
  assumes "wf_core s"
  shows "wf_core (new_settled_promise r s)"
proof -
  have n: "origin s (next_pid s) = None" "settled s (next_pid s) = None"
    using assms by (auto simp: wf_core_def)
  have t: "typed (new_settled_promise r s) p r'" if "settled s p = Some r'" for p r'
    using typing_grows_c [OF assms new_settled_promise_ext_c [OF assms] that] .
  have t0: "typed (new_settled_promise r s) (next_pid s) r"
    using n by (simp add: typed_def new_settled_promise_def)
  have sp: "scan_promise (new_settled_promise r s) p" if "scan_promise s p" for p
    using that by (auto simp: scan_promise_def new_settled_promise_def)
  show ?thesis
    using assms t t0 sp
    unfolding wf_core_def
    by (auto simp: new_settled_promise_def docs_for_def the_cache_def the_context_def)
qed

lemma new_all_promise_ext_c: "wf_core s \<Longrightarrow> grows s (new_all_promise ps s)"
  by (simp add: new_all_promise_def new_settled_promise_ext_c)
     (simp add: grows_def cache_le_def entries_le_def the_visited_def)

lemma new_all_promise_inv_c:
  assumes "wf_core s"
  shows "wf_core (new_all_promise ps s)"
proof (cases "ps = []")
  case True
  then show ?thesis using new_settled_promise_inv_c [OF assms] by (simp add: new_all_promise_def)
next
  case False
  have g: "grows s (s\<lparr>next_pid := next_pid s + 1\<rparr>)"
    by (simp add: grows_def cache_le_def entries_le_def the_visited_def)
  have t: "\<forall>p r. settled (s\<lparr>next_pid := next_pid s + 1\<rparr>) p = Some r \<longrightarrow>
             typed (s\<lparr>next_pid := next_pid s + 1\<rparr>) p r"
    by (rule wf_core_typing_c [OF assms g]) simp
  have "wf_core (s\<lparr>next_pid := next_pid s + 1\<rparr>)"
    using assms t unfolding wf_core_def
    by (auto simp: scan_promise_def docs_for_def the_cache_def the_context_def)
  with False show ?thesis by (simp add: new_all_promise_def)
qed

lemma settle_promise_ext: "settled s q = None \<Longrightarrow> grows s (settle_promise q r s)"
  by (auto simp: grows_def settle_promise_def cache_le_def entries_le_def the_visited_def)

lemma settle_promise_inv_c:
  assumes "wf_core s" "q < next_pid s" "typed s q r" "settled s q = None"
  shows "wf_core (settle_promise q r s)"
proof -
  have g: "grows s (settle_promise q r s)" by (rule settle_promise_ext [OF assms(4)])
  have t: "\<forall>p r'. settled (settle_promise q r s) p = Some r' \<longrightarrow> typed (settle_promise q r s) p r'"
  proof (rule wf_core_typing_c [OF assms(1) g])
    fix p r'
    assume "settled (settle_promise q r s) p = Some r'"
    then show "settled s p = Some r' \<or> typed (settle_promise q r s) p r'"
      using typed_grows [OF g assms(2,3)] by (auto simp: settle_promise_def split: if_splits)
  qed
  show ?thesis
    using assms(1,2) t unfolding wf_core_def
    by (auto simp: settle_promise_def scan_promise_def docs_for_def the_cache_def
        the_context_def)
qed

lemma map_of_update_None:
  "map_of m k = None \<Longrightarrow> entries_le m (AList.update k v m)"
  by (auto simp: entries_le_def update_conv')

lemma entries_le_refl: "entries_le m m"
  by (simp add: entries_le_def)

lemma context_defined_c: "wf_core s \<Longrightarrow> this < next_cid s \<Longrightarrow> \<exists>c. contexts s this = Some c"
  unfolding wf_core_def by (metis option.exhaust)

lemma the_context_Some: "contexts s this = Some c \<Longrightarrow> the_context s this = c"
  by (simp add: the_context_def)

lemma update_cache_grows:
  assumes "contexts s this = Some c" "cache_le (c_cache c) (f (c_cache c))"
  shows "grows s (update_cache this f s)"
  using assms
  by (auto simp: grows_def update_cache_def the_context_def the_cache_def cache_le_def entries_le_def
      the_visited_def)

lemma docs_for_update_cache [simp]: "docs_for (update_cache this f s) g u = docs_for s g u"
  by (simp add: docs_for_def update_cache_def)

lemma the_cache_update_cache:
  "the_cache (update_cache this f s) g = (if g = this then f (the_cache s this) else the_cache s g)"
  by (simp add: the_cache_def update_cache_def the_context_def)

lemma update_cache_wf_c:
  assumes wf: "wf_core s" and c: "contexts s this = Some c"
    and le: "cache_le (c_cache c) (f (c_cache c))"
    and sp: "\<And>u p. map_of (scannedDocumentPromises (f (c_cache c))) u = Some p \<Longrightarrow> scan_promise s p"
    and ad: "\<And>u. has (analyzedDocuments (c_cache c)) u \<Longrightarrow> has (analyzedDocuments (f (c_cache c))) u"
  shows "wf_core (update_cache this f s)"
proof -
  have tc: "the_cache s this = c_cache c" using c by (simp add: the_cache_def the_context_def)
  have 1: "\<forall>p. next_pid (update_cache this f s) \<le> p \<longrightarrow>
             origin (update_cache this f s) p = None \<and> settled (update_cache this f s) p = None"
    using wf by (simp add: wf_core_def update_cache_def)
  have 2: "\<forall>p r. settled (update_cache this f s) p = Some r \<longrightarrow> typed (update_cache this f s) p r"
  proof (rule wf_core_typing_c [OF wf])
    show "grows s (update_cache this f s)" using c le by (rule update_cache_grows)
  qed (simp add: update_cache_def)
  have 3: "\<forall>g. (contexts (update_cache this f s) g \<noteq> None) = (g < next_cid (update_cache this f s))"
    using wf c by (auto simp: wf_core_def update_cache_def)
  have 4: "analyzer (update_cache this f s) < next_cid (update_cache this f s)"
    using wf by (simp add: wf_core_def update_cache_def)
  have 5: "\<forall>g c' u p. contexts (update_cache this f s) g = Some c' \<longrightarrow>
         map_of (scannedDocumentPromises (c_cache c')) u = Some p \<longrightarrow>
         scan_promise (update_cache this f s) p"
  proof (intro allI impI)
    fix g c' u p
    assume a: "contexts (update_cache this f s) g = Some c'"
      "map_of (scannedDocumentPromises (c_cache c')) u = Some p"
    have "scan_promise s p"
    proof (cases "g = this")
      case True
      with a c have "c_cache c' = f (c_cache c)"
        by (auto simp: update_cache_def the_context_def the_cache_def)
      with a(2) sp show ?thesis by simp
    next
      case False
      with a have "contexts s g = Some c'" by (simp add: update_cache_def)
      with wf a(2) show ?thesis unfolding wf_core_def by blast
    qed
    then show "scan_promise (update_cache this f s) p"
      by (simp add: scan_promise_def update_cache_def)
  qed
  have 6: "\<forall>d \<in> set (documents (update_cache this f s)).
             doc_analyzer d < next_cid (update_cache this f s)"
    using wf by (simp add: wf_core_def update_cache_def)
  have 7: "\<forall>g u. length (docs_for (update_cache this f s) g u) \<le> 1 \<and>
         (docs_for (update_cache this f s) g u \<noteq> [] \<longrightarrow>
            has (analyzedDocuments (the_cache (update_cache this f s) g)) u)"
  proof (intro allI)
    fix g u
    have old: "length (docs_for s g u) \<le> 1"
      "docs_for s g u \<noteq> [] \<longrightarrow> has (analyzedDocuments (the_cache s g)) u"
      using wf unfolding wf_core_def by auto
    have "has (analyzedDocuments (the_cache s g)) u \<longrightarrow>
          has (analyzedDocuments (the_cache (update_cache this f s) g)) u"
      using ad tc by (simp add: the_cache_update_cache)
    with old show "length (docs_for (update_cache this f s) g u) \<le> 1 \<and>
         (docs_for (update_cache this f s) g u \<noteq> [] \<longrightarrow>
            has (analyzedDocuments (the_cache (update_cache this f s) g)) u)"
      by simp
  qed
  show ?thesis unfolding wf_core_def using 1 2 3 4 5 6 7 by blast
qed

lemma has_update: "has (AList.update k v m) k' = (k' = k \<or> has m k')"
  by (auto simp: has_def update_conv')

lemma has_None: "(\<not> has m k) = (map_of m k = None)"
  by (simp add: has_def)

lemma set_scannedDocumentPromise_ok_c:
  assumes "wf_core s" "this < next_cid s"
    "map_of (scannedDocumentPromises (the_cache s this)) u = None" "scan_promise s p"
  shows "grows s (set_scannedDocumentPromise this u p s) \<and>
         wf_core (set_scannedDocumentPromise this u p s)"
proof -
  from context_defined_c [OF assms(1,2)] obtain c where c: "contexts s this = Some c" ..
  then have tc: "the_cache s this = c_cache c" by (simp add: the_cache_def the_context_def)
  have "grows s (set_scannedDocumentPromise this u p s)"
    unfolding set_scannedDocumentPromise_def
    by (rule update_cache_grows [OF c])
       (use assms(3) tc in \<open>simp add: cache_le_def entries_le_refl map_of_update_None\<close>)
  moreover have "wf_core (set_scannedDocumentPromise this u p s)"
    unfolding set_scannedDocumentPromise_def
  proof (rule update_cache_wf_c [OF assms(1) c])
    show "cache_le (c_cache c) (c_cache c\<lparr>scannedDocumentPromises :=
               AList.update u p (scannedDocumentPromises (c_cache c))\<rparr>)"
      using assms(3) tc by (simp add: cache_le_def entries_le_refl map_of_update_None)
  next
    fix u' p'
    assume "map_of (scannedDocumentPromises (c_cache c\<lparr>scannedDocumentPromises :=
               AList.update u p (scannedDocumentPromises (c_cache c))\<rparr>)) u' = Some p'"
    then show "scan_promise s p'"
      using assms(1,4) c unfolding wf_core_def
      by (auto simp: update_conv' split: if_splits)
  qed simp
  ultimately show ?thesis by simp
qed

lemma set_other_ok_c:
  assumes "wf_core s" "this < next_cid s"
    and "cache_le (the_cache s this) (f (the_cache s this))"
    and "scannedDocumentPromises (f (the_cache s this)) = scannedDocumentPromises (the_cache s this)"
  shows "grows s (update_cache this f s) \<and> wf_core (update_cache this f s)"
proof -
  from context_defined_c [OF assms(1,2)] obtain c where c: "contexts s this = Some c" ..
  then have tc: "the_cache s this = c_cache c" by (simp add: the_cache_def the_context_def)
  have "grows s (update_cache this f s)"
    by (rule update_cache_grows [OF c]) (use assms(3) tc in simp)
  moreover have "wf_core (update_cache this f s)"
  proof (rule update_cache_wf_c [OF assms(1) c])
    show "cache_le (c_cache c) (f (c_cache c))" using assms(3) tc by simp
  next
    fix u' p'
    assume "map_of (scannedDocumentPromises (f (c_cache c))) u' = Some p'"
    then show "scan_promise s p'"
      using assms(1,4) c tc unfolding wf_core_def by auto
  next
    fix u
    assume "has (analyzedDocuments (c_cache c)) u"
    then show "has (analyzedDocuments (f (c_cache c))) u"
      using assms(3) tc by (auto simp: cache_le_def entries_le_def has_def)
  qed
  ultimately show ?thesis by simp
qed

lemma new_Document_grows: "grows s (new_Document this d u s)"
  by (simp add: grows_def new_Document_def cache_le_def entries_le_def the_visited_def)

lemma docs_for_new_Document:
  "docs_for (new_Document this d u s) g v =
     docs_for s g v @ (if g = this \<and> v = u then [\<lparr>doc_base = d, doc_analyzer = this, doc_url = u\<rparr>] else [])"
  by (simp add: docs_for_def new_Document_def)

lemma store_document_alt:
  "store_document this d u s =
     new_Document this d u
       (update_cache this
          (\<lambda>c. c\<lparr>analyzedDocuments := AList.update u (length (documents s)) (analyzedDocuments c)\<rparr>)
          (if \<not> has (analyzedDocumentPromises (the_cache s this)) u
           then update_cache this
                  (\<lambda>c. c\<lparr>analyzedDocumentPromises :=
                           AList.update u (next_pid s) (analyzedDocumentPromises c)\<rparr>)
                  (new_settled_promise (Fulfilled (Document (length (documents s)))) s)
           else s))"
  by (simp add: store_document_def new_Document_def update_cache_def new_settled_promise_def
      the_cache_def the_context_def Let_def)

lemma new_Document_wf_c:
  assumes wf: "wf_core s" and lt: "this < next_cid s"
    and h: "has (analyzedDocuments (the_cache s this)) u"
    and e: "docs_for s this u = []"
  shows "wf_core (new_Document this d u s)"
proof -
  have a: "\<forall>g v. length (docs_for (new_Document this d u s) g v) \<le> 1 \<and>
         (docs_for (new_Document this d u s) g v \<noteq> [] \<longrightarrow>
            has (analyzedDocuments (the_cache (new_Document this d u s) g)) v)"
  proof (intro allI)
    fix g v
    have old: "length (docs_for s g v) \<le> 1"
      "docs_for s g v \<noteq> [] \<longrightarrow> has (analyzedDocuments (the_cache s g)) v"
      using wf unfolding wf_core_def by auto
    have tc: "the_cache (new_Document this d u s) g = the_cache s g"
      by (simp add: the_cache_def the_context_def new_Document_def)
    show "length (docs_for (new_Document this d u s) g v) \<le> 1 \<and>
         (docs_for (new_Document this d u s) g v \<noteq> [] \<longrightarrow>
            has (analyzedDocuments (the_cache (new_Document this d u s) g)) v)"
      using old e h by (auto simp: docs_for_new_Document tc)
  qed
  have t: "\<forall>p r. settled (new_Document this d u s) p = Some r \<longrightarrow>
             typed (new_Document this d u s) p r"
    by (rule wf_core_typing_c [OF wf new_Document_grows]) (simp add: new_Document_def)
  have b: "(\<forall>p. next_pid (new_Document this d u s) \<le> p \<longrightarrow>
        origin (new_Document this d u s) p = None \<and> settled (new_Document this d u s) p = None) \<and>
     (\<forall>g. (contexts (new_Document this d u s) g \<noteq> None) = (g < next_cid (new_Document this d u s))) \<and>
     analyzer (new_Document this d u s) < next_cid (new_Document this d u s) \<and>
     (\<forall>g c u' p. contexts (new_Document this d u s) g = Some c \<longrightarrow>
         map_of (scannedDocumentPromises (c_cache c)) u' = Some p \<longrightarrow>
         scan_promise (new_Document this d u s) p) \<and>
     (\<forall>x \<in> set (documents (new_Document this d u s)).
         doc_analyzer x < next_cid (new_Document this d u s))"
    using wf lt unfolding wf_core_def
    by (simp add: new_Document_def scan_promise_def)
  show ?thesis unfolding wf_core_def using a b t by blast
qed

lemma set_analyzedDocumentPromise_ok_c:
  assumes "wf_core s" "this < next_cid s"
    "map_of (analyzedDocumentPromises (the_cache s this)) u = None"
  shows "grows s (set_analyzedDocumentPromise this u p s) \<and>
         wf_core (set_analyzedDocumentPromise this u p s)"
  unfolding set_analyzedDocumentPromise_def
  by (rule set_other_ok_c [OF assms(1,2)])
     (use assms(3) in \<open>simp_all add: cache_le_def entries_le_refl map_of_update_None\<close>)

lemma set_parsedDocumentPromise_ok_c:
  assumes "wf_core s" "this < next_cid s"
    "map_of (parsedDocumentPromises (the_cache s this)) u = None"
  shows "grows s (set_parsedDocumentPromise this u p s) \<and>
         wf_core (set_parsedDocumentPromise this u p s)"
  unfolding set_parsedDocumentPromise_def
  by (rule set_other_ok_c [OF assms(1,2)])
     (use assms(3) in \<open>simp_all add: cache_le_def entries_le_refl map_of_update_None\<close>)

lemma set_scannedDocument_ok_c:
  assumes "wf_core s" "this < next_cid s"
    "map_of (scannedDocuments (the_cache s this)) u = None"
  shows "grows s (set_scannedDocument this u d s) \<and> wf_core (set_scannedDocument this u d s)"
  unfolding set_scannedDocument_def
  by (rule set_other_ok_c [OF assms(1,2)])
     (use assms(3) in \<open>simp_all add: cache_le_def entries_le_refl map_of_update_None\<close>)

lemma set_analyzedDocument_ok_c:
  assumes "wf_core s" "this < next_cid s"
    "map_of (analyzedDocuments (the_cache s this)) u = None"
  shows "grows s (update_cache this
           (\<lambda>c. c\<lparr>analyzedDocuments := AList.update u d (analyzedDocuments c)\<rparr>) s) \<and>
         wf_core (update_cache this
           (\<lambda>c. c\<lparr>analyzedDocuments := AList.update u d (analyzedDocuments c)\<rparr>) s)"
  by (rule set_other_ok_c [OF assms(1,2)])
     (use assms(3) in \<open>simp_all add: cache_le_def entries_le_refl map_of_update_None\<close>)

lemma set_dependenciesScanned_ok_c:
  assumes "wf_core s" "this < next_cid s"
  shows "grows s (set_dependenciesScanned this u p s) \<and>
         wf_core (set_dependenciesScanned this u p s)"
  unfolding set_dependenciesScanned_def
  by (rule set_other_ok_c [OF assms(1,2)]) (simp_all add: cache_le_def entries_le_refl)

lemma store_document_ok_c:
  assumes wf: "wf_core s" and lt: "this < next_cid s"
    and nh: "\<not> has (analyzedDocuments (the_cache s this)) u"
  shows "grows s (store_document this d u s) \<and> wf_core (store_document this d u s)"
proof -
  let ?doc = "length (documents s)"
  let ?t = "new_settled_promise (Fulfilled (Document ?doc)) s"
  let ?s2 = "if \<not> has (analyzedDocumentPromises (the_cache s this)) u
             then update_cache this
                    (\<lambda>c. c\<lparr>analyzedDocumentPromises :=
                             AList.update u (next_pid s) (analyzedDocumentPromises c)\<rparr>) ?t
             else s"
  let ?s3 = "update_cache this
               (\<lambda>c. c\<lparr>analyzedDocuments := AList.update u ?doc (analyzedDocuments c)\<rparr>) ?s2"
  have tt: "the_cache ?t this = the_cache s this" "next_cid ?t = next_cid s"
    by (simp_all add: the_cache_def the_context_def new_settled_promise_def)
  have s2: "grows s ?s2 \<and> wf_core ?s2 \<and> next_cid ?s2 = next_cid s \<and>
            analyzedDocuments (the_cache ?s2 this) = analyzedDocuments (the_cache s this) \<and>
            documents ?s2 = documents s"
  proof (cases "has (analyzedDocumentPromises (the_cache s this)) u")
    case True
    then show ?thesis using wf by (simp add: grows_refl)
  next
    case False
    have 1: "grows s ?t" "wf_core ?t"
      using new_settled_promise_ext_c [OF wf] new_settled_promise_inv_c [OF wf] by simp_all
    have "map_of (analyzedDocumentPromises (the_cache ?t this)) u = None"
      using False by (simp add: tt has_def)
    from set_analyzedDocumentPromise_ok_c [OF 1(2) _ this, of "next_pid s"] lt
    have 2: "grows ?t (set_analyzedDocumentPromise this u (next_pid s) ?t)"
      "wf_core (set_analyzedDocumentPromise this u (next_pid s) ?t)"
      by (simp_all add: tt)
    from False 1 2 show ?thesis
      by (auto intro: grows_trans
          simp: set_analyzedDocumentPromise_def the_cache_update_cache tt)
         (simp_all add: update_cache_def new_settled_promise_def)
  qed
  have mo: "map_of (analyzedDocuments (the_cache ?s2 this)) u = None"
    using s2 nh by (simp add: has_def)
  from s2 lt have lt2: "this < next_cid ?s2" by simp
  from set_analyzedDocument_ok_c [OF _ lt2 mo, of ?doc] s2
  have s3: "grows ?s2 ?s3" "wf_core ?s3" by simp_all
  have h3: "has (analyzedDocuments (the_cache ?s3 this)) u"
    by (simp add: the_cache_update_cache has_update)
  have d3: "docs_for ?s3 this u = []"
  proof -
    have "docs_for ?s3 this u = docs_for s this u"
      using s2 by (simp add: docs_for_def update_cache_def)
    moreover have "docs_for s this u = []"
      using wf nh unfolding wf_core_def by blast
    ultimately show ?thesis by simp
  qed
  have lt3: "this < next_cid ?s3" using lt2 by (simp add: update_cache_def)
  have "wf_core (new_Document this d u ?s3)"
    by (rule new_Document_wf_c [OF s3(2) lt3 h3 d3])
  moreover have "grows s (new_Document this d u ?s3)"
    using s2 s3(1) new_Document_grows [of ?s3 this d u] by (blast intro: grows_trans)
  ultimately show ?thesis by (simp add: store_document_alt)
qed

lemma grows_next_cid: "grows s s' \<Longrightarrow> this < next_cid s \<Longrightarrow> this < next_cid s'"
  by (simp add: grows_def)

lemma resolve_document_ok_c:
  assumes g: "\<And>u s. wf_core s \<Longrightarrow> this < next_cid s \<Longrightarrow>
                grows s (snd (getDoc u s)) \<and> wf_core (snd (getDoc u s))"
  shows "wf_core s \<Longrightarrow> this < next_cid s \<Longrightarrow>
         grows s (snd (resolve_document getDoc us s)) \<and>
         wf_core (snd (resolve_document getDoc us s))"
proof (induction us arbitrary: s)
  case Nil
  then show ?case by (simp add: grows_refl)
next
  case (Cons u us)
  from g [OF Cons.prems] have 1: "grows s (snd (getDoc u s))" "wf_core (snd (getDoc u s))"
    by simp_all
  have 2: "this < next_cid (snd (getDoc u s))"
    using grows_next_cid [OF 1(1) Cons.prems(2)] .
  from Cons.IH [OF 1(2) 2] 1 show ?case
    by (cases "getDoc u s") (auto split: sum.splits intro: grows_trans)
qed

lemma getDocument_with_ok_c:
  assumes g: "\<And>d s. wf_core s \<Longrightarrow> this < next_cid s \<Longrightarrow>
                grows s (snd (makeDoc d s)) \<and> wf_core (snd (makeDoc d s))"
    and "wf_core s" "this < next_cid s"
  shows "grows s (snd (getDocument_with makeDoc this u s)) \<and>
         wf_core (snd (getDocument_with makeDoc this u s))"
proof -
  have "grows s (snd (makeDoc d s)) \<and> wf_core (snd (makeDoc d s))" for d
    using g assms(2,3) by blast
  then show ?thesis
    using assms(2)
    by (auto simp: getDocument_with_def Let_def grows_refl split: option.splits prod.splits sum.splits)
       (metis snd_conv)+
qed

lemma makeDocument_ok_c:
  "wf_core s \<Longrightarrow> this < next_cid s \<Longrightarrow>
   grows s (snd (makeDocument n w this d s)) \<and> wf_core (snd (makeDocument n w this d s))"
proof (induction n arbitrary: d s)
  case 0
  then show ?case
    using same_core_simps(5) [of s True] by (simp add: same_core_grows same_core_wf_c)
next
  case (Suc n)
  let ?u = "sd_url (the_sdoc s d)"
  show ?case
  proof (cases "has (analyzedDocuments (the_cache s this)) ?u")
    case True
    with Suc.prems show ?thesis by (simp add: Let_def grows_refl)
  next
    case False
    let ?s3 = "store_document this d ?u s"
    from store_document_ok_c [OF Suc.prems False]
    have 3: "grows s ?s3" "wf_core ?s3" by simp_all
    have lt3: "this < next_cid ?s3" using grows_next_cid [OF 3(1) Suc.prems(2)] .
    have gd: "\<And>u s. wf_core s \<Longrightarrow> this < next_cid s \<Longrightarrow>
             grows s (snd (getDocument_with (makeDocument n w this) this u s)) \<and>
             wf_core (snd (getDocument_with (makeDocument n w this) this u s))"
      by (rule getDocument_with_ok_c) (use Suc.IH in blast)+
    from resolve_document_ok_c [of this "getDocument_with (makeDocument n w this) this", OF gd 3(2) lt3]
    have 4: "grows ?s3 (snd (resolve_document (getDocument_with (makeDocument n w this) this)
                 (resolve_lookups w (the_sdoc s d)) ?s3))"
      "wf_core (snd (resolve_document (getDocument_with (makeDocument n w this) this)
                 (resolve_lookups w (the_sdoc s d)) ?s3))"
      by simp_all
    from False 3 4 show ?thesis
      by (auto simp: Let_def split: prod.splits option.splits intro: grows_trans)
  qed
qed

lemma new_context_ok_c:
  assumes wf: "wf_core s"
    and sp: "\<And>u p. map_of (scannedDocumentPromises (c_cache ctx)) u = Some p \<Longrightarrow> scan_promise s p"
  shows "grows s (s\<lparr>contexts := (contexts s)(next_cid s \<mapsto> ctx), analyzer := next_cid s,
                    next_cid := next_cid s + 1\<rparr>) \<and>
         wf_core (s\<lparr>contexts := (contexts s)(next_cid s \<mapsto> ctx), analyzer := next_cid s,
                    next_cid := next_cid s + 1\<rparr>)"
proof -
  let ?s' = "s\<lparr>contexts := (contexts s)(next_cid s \<mapsto> ctx), analyzer := next_cid s,
                next_cid := next_cid s + 1\<rparr>"
  have nd: "contexts s (next_cid s) = None"
    using wf unfolding wf_core_def by (metis less_irrefl)
  have g: "grows s ?s'"
    using nd by (auto simp: grows_def cache_le_def entries_le_def the_visited_def)
  have t: "\<forall>p r. settled ?s' p = Some r \<longrightarrow> typed ?s' p r"
    by (rule wf_core_typing_c [OF wf g]) simp
  have a: "\<forall>g u. length (docs_for ?s' g u) \<le> 1 \<and>
         (docs_for ?s' g u \<noteq> [] \<longrightarrow> has (analyzedDocuments (the_cache ?s' g)) u)"
  proof (intro allI)
    fix g u
    have df: "docs_for ?s' g u = docs_for s g u" by (simp add: docs_for_def)
    have old: "length (docs_for s g u) \<le> 1"
      "docs_for s g u \<noteq> [] \<longrightarrow> has (analyzedDocuments (the_cache s g)) u"
      using wf unfolding wf_core_def by auto
    show "length (docs_for ?s' g u) \<le> 1 \<and>
         (docs_for ?s' g u \<noteq> [] \<longrightarrow> has (analyzedDocuments (the_cache ?s' g)) u)"
    proof (cases "g = next_cid s")
      case True
      have "\<forall>d \<in> set (documents s). doc_analyzer d \<noteq> next_cid s"
        using wf unfolding wf_core_def by auto
      then have "[d \<leftarrow> documents s. doc_analyzer d = g \<and> doc_url d = u] = []"
        using True by (auto simp: filter_empty_conv)
      then show ?thesis by (simp add: docs_for_def)
    next
      case False
      then have "the_cache ?s' g = the_cache s g" by (simp add: the_cache_def the_context_def)
      with old df show ?thesis by simp
    qed
  qed
  have b: "(\<forall>p. next_pid ?s' \<le> p \<longrightarrow> origin ?s' p = None \<and> settled ?s' p = None) \<and>
     (\<forall>g. (contexts ?s' g \<noteq> None) = (g < next_cid ?s')) \<and>
     analyzer ?s' < next_cid ?s' \<and>
     (\<forall>x \<in> set (documents ?s'). doc_analyzer x < next_cid ?s')"
    using wf unfolding wf_core_def by (auto simp: less_Suc_eq)
  have c: "\<forall>g c u p. contexts ?s' g = Some c \<longrightarrow>
         map_of (scannedDocumentPromises (c_cache c)) u = Some p \<longrightarrow> scan_promise ?s' p"
  proof (intro allI impI)
    fix g c u p
    assume h: "contexts ?s' g = Some c" "map_of (scannedDocumentPromises (c_cache c)) u = Some p"
    have "scan_promise s p"
    proof (cases "g = next_cid s")
      case True
      with h sp show ?thesis by simp
    next
      case False
      with h wf show ?thesis unfolding wf_core_def by auto
    qed
    then show "scan_promise ?s' p" by (simp add: scan_promise_def)
  qed
  have "wf_core ?s'" unfolding wf_core_def using a b c t by blast
  with g show ?thesis by simp
qed

lemma visited_add_ok_c:
  assumes "wf_core s"
  shows "grows s (visited_add v u s) \<and> wf_core (visited_add v u s)"
proof -
  have g: "grows s (visited_add v u s)"
    by (auto simp: grows_def visited_add_def cache_le_def entries_le_def the_visited_def)
  have t: "\<forall>p r. settled (visited_add v u s) p = Some r \<longrightarrow> typed (visited_add v u s) p r"
    by (rule wf_core_typing_c [OF assms g]) (simp add: visited_add_def split: if_splits)
  have "wf_core (visited_add v u s)"
    using assms t unfolding wf_core_def
    by (auto simp: visited_add_def scan_promise_def docs_for_def the_cache_def the_context_def)
  with g show ?thesis by simp
qed

lemma new_Set_ok_c:
  assumes "wf_core s"
  shows "grows s (new_Set s) \<and> wf_core (new_Set s)"
proof -
  have g: "grows s (new_Set s)"
    by (auto simp: grows_def new_Set_def cache_le_def entries_le_def the_visited_def)
  have t: "\<forall>p r. settled (new_Set s) p = Some r \<longrightarrow> typed (new_Set s) p r"
    by (rule wf_core_typing_c [OF assms g]) (simp add: new_Set_def)
  have "wf_core (new_Set s)"
    using assms t unfolding wf_core_def
    by (auto simp: new_Set_def scan_promise_def docs_for_def the_cache_def the_context_def)
  with g show ?thesis by simp
qed

lemma fileChanged_scanned_entries:
  "map_of (scannedDocumentPromises (c_cache (fileChanged s this u))) v = Some p \<Longrightarrow>
   map_of (scannedDocumentPromises (c_cache this)) v = Some p"
  by (simp add: fileChanged_def fork_def new_AnalyzerCacheContext_def onPathChanged_def Let_def
      map_of_remove_keys split: if_splits)

text \<open>The invariant of the store: the core invariant and the bound on the cached promises.\<close>

lemma wf_storeD: "wf_store s \<Longrightarrow> wf_core s" "wf_store s \<Longrightarrow> wf_cached s"
  by (simp_all add: wf_store_def)

lemma wf_cached_lt:
  "wf_cached s \<Longrightarrow> contexts s g = Some c \<Longrightarrow> p \<in> cached_promises (c_cache c) \<Longrightarrow> p < next_pid s"
  unfolding wf_cached_def by blast

lemma wf_cached_step:
  assumes "wf_cached s" "next_pid s \<le> next_pid s'"
    and "\<And>g c' p. contexts s' g = Some c' \<Longrightarrow> p \<in> cached_promises (c_cache c') \<Longrightarrow>
           p < next_pid s' \<or> (\<exists>c. contexts s g = Some c \<and> p \<in> cached_promises (c_cache c))"
  shows "wf_cached s'"
  unfolding wf_cached_def
proof (intro allI impI)
  fix g c' p
  assume h: "contexts s' g = Some c'" "p \<in> cached_promises (c_cache c')"
  from assms(3) [OF h] show "p < next_pid s'"
    using wf_cached_lt [OF assms(1)] assms(2) by (auto intro: less_le_trans)
qed

lemma wf_cached_same:
  assumes "wf_cached s" "next_pid s \<le> next_pid s'" "contexts s' = contexts s"
  shows "wf_cached s'"
  by (rule wf_cached_step [OF assms(1,2)]) (simp add: assms(3))

lemma update_cache_cached:
  assumes wf: "wf_cached s" and c: "contexts s this = Some c"
    and b: "\<And>p. p \<in> cached_promises (f (c_cache c)) \<Longrightarrow>
               p < next_pid s \<or> p \<in> cached_promises (c_cache c)"
  shows "wf_cached (update_cache this f s)"
proof (rule wf_cached_step [OF wf])
  show "next_pid s \<le> next_pid (update_cache this f s)" by (simp add: update_cache_def)
next
  fix g c' p
  assume h: "contexts (update_cache this f s) g = Some c'" "p \<in> cached_promises (c_cache c')"
  show "p < next_pid (update_cache this f s) \<or>
        (\<exists>c. contexts s g = Some c \<and> p \<in> cached_promises (c_cache c))"
  proof (cases "g = this")
    case True
    with h c have "p \<in> cached_promises (f (c_cache c))"
      by (auto simp: update_cache_def the_cache_def the_context_def)
    from b [OF this] True c show ?thesis by (auto simp: update_cache_def)
  next
    case False
    with h show ?thesis by (simp add: update_cache_def)
  qed
qed

lemma same_core_wf: "same_core s s' \<Longrightarrow> wf_store s' = wf_store s"
  by (simp add: wf_store_def same_core_wf_c) (simp add: wf_cached_def same_core_def)

lemma scan_promise_lt: "wf_store s \<Longrightarrow> scan_promise s p \<Longrightarrow> p < next_pid s"
  by (simp add: wf_store_def scan_promise_lt_c)

lemma settled_lt: "wf_store s \<Longrightarrow> settled s p = Some r \<Longrightarrow> p < next_pid s"
  using settled_lt_c by (simp add: wf_store_def)

lemma typing_grows: "wf_store s \<Longrightarrow> grows s s' \<Longrightarrow> settled s p = Some r \<Longrightarrow> typed s' p r"
  by (rule typing_grows_c) (simp_all add: wf_store_def)

lemma context_defined: "wf_store s \<Longrightarrow> this < next_cid s \<Longrightarrow> \<exists>c. contexts s this = Some c"
  using context_defined_c by (simp add: wf_store_def)

lemma new_promise_inv:
  assumes "wf_store s"
  shows "wf_store (new_promise src s)"
  using assms new_promise_inv_c [of s src]
  by (auto simp: wf_store_def new_promise_def intro: wf_cached_same)

lemma new_settled_promise_ext: "wf_store s \<Longrightarrow> grows s (new_settled_promise r s)"
  by (simp add: wf_store_def new_settled_promise_ext_c)

lemma new_settled_promise_inv:
  assumes "wf_store s"
  shows "wf_store (new_settled_promise r s)"
  using assms new_settled_promise_inv_c [of s r]
  by (auto simp: wf_store_def new_settled_promise_def intro: wf_cached_same)

lemma new_all_promise_ext: "wf_store s \<Longrightarrow> grows s (new_all_promise ps s)"
  by (simp add: wf_store_def new_all_promise_ext_c)

lemma new_all_promise_inv:
  assumes "wf_store s"
  shows "wf_store (new_all_promise ps s)"
  using assms new_all_promise_inv_c [of s ps]
  by (auto simp: wf_store_def new_all_promise_def new_settled_promise_def intro: wf_cached_same)

lemma settle_promise_inv:
  assumes "wf_store s" "q < next_pid s" "typed s q r" "settled s q = None"
  shows "wf_store (settle_promise q r s)"
  using assms settle_promise_inv_c [of s q r]
  by (auto simp: wf_store_def settle_promise_def intro: wf_cached_same)

lemma cached_promises_simps:
  "cached_promises (c\<lparr>scannedDocumentPromises := a\<rparr>) = cached_promises c"
  "cached_promises (c\<lparr>scannedDocuments := b\<rparr>) = cached_promises c"
  "cached_promises (c\<lparr>analyzedDocuments := d\<rparr>) = cached_promises c"
  by (simp_all add: cached_promises_def)

lemma cached_promises_update:
  "p' \<in> cached_promises (c\<lparr>parsedDocumentPromises := AList.update u p (parsedDocumentPromises c)\<rparr>)
   \<Longrightarrow> p' = p \<or> p' \<in> cached_promises c"
  "p' \<in> cached_promises (c\<lparr>analyzedDocumentPromises := AList.update u p (analyzedDocumentPromises c)\<rparr>)
   \<Longrightarrow> p' = p \<or> p' \<in> cached_promises c"
  "p' \<in> cached_promises (c\<lparr>dependenciesScanned := AList.update u p (dependenciesScanned c)\<rparr>)
   \<Longrightarrow> p' = p \<or> p' \<in> cached_promises c"
  by (auto simp: cached_promises_def update_conv' split: if_splits)

lemma set_scannedDocumentPromise_ok:
  assumes "wf_store s" "this < next_cid s"
    "map_of (scannedDocumentPromises (the_cache s this)) u = None" "scan_promise s p"
  shows "grows s (set_scannedDocumentPromise this u p s) \<and>
         wf_store (set_scannedDocumentPromise this u p s)"
proof -
  obtain c where c: "contexts s this = Some c" using context_defined [OF assms(1,2)] by blast
  have "wf_cached (set_scannedDocumentPromise this u p s)"
    unfolding set_scannedDocumentPromise_def
    by (rule update_cache_cached [OF wf_storeD(2) [OF assms(1)] c])
       (simp add: cached_promises_simps)
  with set_scannedDocumentPromise_ok_c [OF wf_storeD(1) [OF assms(1)] assms(2-4)]
  show ?thesis by (simp add: wf_store_def)
qed

lemma set_analyzedDocumentPromise_ok:
  assumes "wf_store s" "this < next_cid s"
    "map_of (analyzedDocumentPromises (the_cache s this)) u = None" "p < next_pid s"
  shows "grows s (set_analyzedDocumentPromise this u p s) \<and>
         wf_store (set_analyzedDocumentPromise this u p s)"
proof -
  obtain c where c: "contexts s this = Some c" using context_defined [OF assms(1,2)] by blast
  have "wf_cached (set_analyzedDocumentPromise this u p s)"
    unfolding set_analyzedDocumentPromise_def
    by (rule update_cache_cached [OF wf_storeD(2) [OF assms(1)] c])
       (use assms(4) in \<open>auto dest: cached_promises_update\<close>)
  with set_analyzedDocumentPromise_ok_c [OF wf_storeD(1) [OF assms(1)] assms(2,3)]
  show ?thesis by (simp add: wf_store_def)
qed

lemma set_parsedDocumentPromise_ok:
  assumes "wf_store s" "this < next_cid s"
    "map_of (parsedDocumentPromises (the_cache s this)) u = None" "p < next_pid s"
  shows "grows s (set_parsedDocumentPromise this u p s) \<and>
         wf_store (set_parsedDocumentPromise this u p s)"
proof -
  obtain c where c: "contexts s this = Some c" using context_defined [OF assms(1,2)] by blast
  have "wf_cached (set_parsedDocumentPromise this u p s)"
    unfolding set_parsedDocumentPromise_def
    by (rule update_cache_cached [OF wf_storeD(2) [OF assms(1)] c])
       (use assms(4) in \<open>auto dest: cached_promises_update\<close>)
  with set_parsedDocumentPromise_ok_c [OF wf_storeD(1) [OF assms(1)] assms(2,3)]
  show ?thesis by (simp add: wf_store_def)
qed

lemma set_dependenciesScanned_ok:
  assumes "wf_store s" "this < next_cid s" "p < next_pid s"
  shows "grows s (set_dependenciesScanned this u p s) \<and>
         wf_store (set_dependenciesScanned this u p s)"
proof -
  obtain c where c: "contexts s this = Some c" using context_defined [OF assms(1,2)] by blast
  have "wf_cached (set_dependenciesScanned this u p s)"
    unfolding set_dependenciesScanned_def
    by (rule update_cache_cached [OF wf_storeD(2) [OF assms(1)] c])
       (use assms(3) in \<open>auto dest: cached_promises_update\<close>)
  with set_dependenciesScanned_ok_c [OF wf_storeD(1) [OF assms(1)] assms(2)]
  show ?thesis by (simp add: wf_store_def)
qed

lemma set_scannedDocument_ok:
  assumes "wf_store s" "this < next_cid s"
    "map_of (scannedDocuments (the_cache s this)) u = None"
  shows "grows s (set_scannedDocument this u d s) \<and> wf_store (set_scannedDocument this u d s)"
proof -
  obtain c where c: "contexts s this = Some c" using context_defined [OF assms(1,2)] by blast
  have "wf_cached (set_scannedDocument this u d s)"
    unfolding set_scannedDocument_def
    by (rule update_cache_cached [OF wf_storeD(2) [OF assms(1)] c])
       (simp add: cached_promises_simps)
  with set_scannedDocument_ok_c [OF wf_storeD(1) [OF assms(1)] assms(2,3)]
  show ?thesis by (simp add: wf_store_def)
qed

lemma store_document_ok:
  assumes wf: "wf_store s" and lt: "this < next_cid s"
    and nh: "\<not> has (analyzedDocuments (the_cache s this)) u"
  shows "grows s (store_document this d u s) \<and> wf_store (store_document this d u s)"
proof -
  obtain c where c: "contexts s this = Some c" using context_defined [OF wf lt] by blast
  have "wf_cached (store_document this d u s)"
  proof (rule wf_cached_step [OF wf_storeD(2) [OF wf]])
    show "next_pid s \<le> next_pid (store_document this d u s)"
      by (simp add: store_document_def Let_def update_cache_def new_Document_def
          new_settled_promise_def)
  next
    fix g c' p
    assume h: "contexts (store_document this d u s) g = Some c'"
      "p \<in> cached_promises (c_cache c')"
    show "p < next_pid (store_document this d u s) \<or>
          (\<exists>c. contexts s g = Some c \<and> p \<in> cached_promises (c_cache c))"
      using h c
      by (auto simp: store_document_def Let_def update_cache_def new_Document_def
          new_settled_promise_def the_cache_def the_context_def cached_promises_simps
          dest: cached_promises_update split: if_splits)
  qed
  with store_document_ok_c [OF wf_storeD(1) [OF wf] lt nh] show ?thesis
    by (simp add: wf_store_def)
qed

lemma resolve_document_ok:
  assumes g: "\<And>u s. wf_store s \<Longrightarrow> this < next_cid s \<Longrightarrow>
                grows s (snd (getDoc u s)) \<and> wf_store (snd (getDoc u s))"
  shows "wf_store s \<Longrightarrow> this < next_cid s \<Longrightarrow>
         grows s (snd (resolve_document getDoc us s)) \<and>
         wf_store (snd (resolve_document getDoc us s))"
proof (induction us arbitrary: s)
  case Nil
  then show ?case by (simp add: grows_refl)
next
  case (Cons u us)
  from g [OF Cons.prems] have 1: "grows s (snd (getDoc u s))" "wf_store (snd (getDoc u s))"
    by simp_all
  have 2: "this < next_cid (snd (getDoc u s))"
    using grows_next_cid [OF 1(1) Cons.prems(2)] .
  from Cons.IH [OF 1(2) 2] 1 show ?case
    by (cases "getDoc u s") (auto split: sum.splits intro: grows_trans)
qed

lemma getDocument_with_ok:
  assumes g: "\<And>d s. wf_store s \<Longrightarrow> this < next_cid s \<Longrightarrow>
                grows s (snd (makeDoc d s)) \<and> wf_store (snd (makeDoc d s))"
    and "wf_store s" "this < next_cid s"
  shows "grows s (snd (getDocument_with makeDoc this u s)) \<and>
         wf_store (snd (getDocument_with makeDoc this u s))"
proof -
  have "grows s (snd (makeDoc d s)) \<and> wf_store (snd (makeDoc d s))" for d
    using g assms(2,3) by blast
  then show ?thesis
    using assms(2)
    by (auto simp: getDocument_with_def Let_def grows_refl split: option.splits prod.splits sum.splits)
       (metis snd_conv)+
qed

lemma makeDocument_ok:
  "wf_store s \<Longrightarrow> this < next_cid s \<Longrightarrow>
   grows s (snd (makeDocument n w this d s)) \<and> wf_store (snd (makeDocument n w this d s))"
proof (induction n arbitrary: d s)
  case 0
  then show ?case
    using same_core_simps(5) [of s True] by (simp add: same_core_grows same_core_wf)
next
  case (Suc n)
  let ?u = "sd_url (the_sdoc s d)"
  show ?case
  proof (cases "has (analyzedDocuments (the_cache s this)) ?u")
    case True
    with Suc.prems show ?thesis by (simp add: Let_def grows_refl)
  next
    case False
    let ?s3 = "store_document this d ?u s"
    from store_document_ok [OF Suc.prems False]
    have 3: "grows s ?s3" "wf_store ?s3" by simp_all
    have lt3: "this < next_cid ?s3" using grows_next_cid [OF 3(1) Suc.prems(2)] .
    have gd: "\<And>u s. wf_store s \<Longrightarrow> this < next_cid s \<Longrightarrow>
             grows s (snd (getDocument_with (makeDocument n w this) this u s)) \<and>
             wf_store (snd (getDocument_with (makeDocument n w this) this u s))"
      by (rule getDocument_with_ok) (use Suc.IH in blast)+
    from resolve_document_ok [of this "getDocument_with (makeDocument n w this) this", OF gd 3(2) lt3]
    have 4: "grows ?s3 (snd (resolve_document (getDocument_with (makeDocument n w this) this)
                 (resolve_lookups w (the_sdoc s d)) ?s3))"
      "wf_store (snd (resolve_document (getDocument_with (makeDocument n w this) this)
                 (resolve_lookups w (the_sdoc s d)) ?s3))"
      by simp_all
    from False 3 4 show ?thesis
      by (auto simp: Let_def split: prod.splits option.splits intro: grows_trans)
  qed
qed

lemma new_context_ok:
  assumes wf: "wf_store s"
    and sp: "\<And>u p. map_of (scannedDocumentPromises (c_cache ctx)) u = Some p \<Longrightarrow> scan_promise s p"
    and cp: "\<And>p. p \<in> cached_promises (c_cache ctx) \<Longrightarrow> p < next_pid s"
  shows "grows s (s\<lparr>contexts := (contexts s)(next_cid s \<mapsto> ctx), analyzer := next_cid s,
                    next_cid := next_cid s + 1\<rparr>) \<and>
         wf_store (s\<lparr>contexts := (contexts s)(next_cid s \<mapsto> ctx), analyzer := next_cid s,
                    next_cid := next_cid s + 1\<rparr>)"
proof -
  have "wf_cached (s\<lparr>contexts := (contexts s)(next_cid s \<mapsto> ctx), analyzer := next_cid s,
                    next_cid := next_cid s + 1\<rparr>)"
    by (rule wf_cached_step [OF wf_storeD(2) [OF wf]]) (auto dest: cp split: if_splits)
  with new_context_ok_c [OF wf_storeD(1) [OF wf] sp] show ?thesis
    by (simp add: wf_store_def)
qed

lemma visited_add_ok:
  assumes "wf_store s"
  shows "grows s (visited_add v u s) \<and> wf_store (visited_add v u s)"
  using assms visited_add_ok_c [of s v u]
  by (auto simp: wf_store_def visited_add_def intro: wf_cached_same)

lemma new_Set_ok:
  assumes "wf_store s"
  shows "grows s (new_Set s) \<and> wf_store (new_Set s)"
  using assms new_Set_ok_c [of s]
  by (auto simp: wf_store_def new_Set_def intro: wf_cached_same)

lemma fileChanged_cached_promises:
  "p \<in> cached_promises (c_cache (fileChanged s this u)) \<Longrightarrow> p \<in> cached_promises (c_cache this)"
  by (auto simp: cached_promises_def fileChanged_def fork_def new_AnalyzerCacheContext_def
      onPathChanged_def Let_def map_of_remove_keys split: if_splits)

section \<open>The functions of the analyzer keep the invariant\<close>

lemma task_grows: "task s self c \<Longrightarrow> grows s s' \<Longrightarrow> wf_store s' \<Longrightarrow> task s' self c"
  by (auto simp: task_def grows_def call_ok_def split: option.splits)

lemma task_rejected: "task s self c \<Longrightarrow> typed s self (Rejected e)"
  by (simp add: task_def typed_def)

lemma task_fulfilled: "task s self c \<Longrightarrow> value_ok c s v \<Longrightarrow> typed s self (Fulfilled v)"
  by (simp add: task_def typed_def)

lemma task_any: "task s self c \<Longrightarrow> (\<And>v. value_ok c s v) \<Longrightarrow> typed s self r"
  by (cases r) (simp_all add: task_def typed_def)

lemma task_this: "task s self c \<Longrightarrow> this_of c = Some this \<Longrightarrow> this < next_cid s"
  by (simp add: task_def call_ok_def)

lemma ok_await_value:
  assumes "p < next_pid s" "\<And>e s'. grows s s' \<Longrightarrow> wf_store s' \<Longrightarrow> typed s' self (Rejected e)"
    and "\<And>v s'. grows s s' \<Longrightarrow> wf_store s' \<Longrightarrow> settled s' p = Some (Fulfilled v) \<Longrightarrow> ok (k v) self s'"
  shows "ok (await_value p k) self s"
  using assms by (auto simp: await_value_def split: outcome.splits)

lemma ok_await_task:
  assumes "task s self c" "p < next_pid s"
    and "\<And>v s'. grows s s' \<Longrightarrow> task s' self c \<Longrightarrow> settled s' p = Some (Fulfilled v) \<Longrightarrow> ok (k v) self s'"
  shows "ok (await_value p k) self s"
  by (rule ok_await_value) (use assms in \<open>auto intro: task_rejected task_grows\<close>)

lemma ok_Async_task:
  assumes "task s self c" "call_ok c' s"
    and "\<And>s'. grows s s' \<Longrightarrow> task s' self c \<Longrightarrow> origin s' (next_pid s) = Some (Called c') \<Longrightarrow>
           next_pid s < next_pid s' \<Longrightarrow> post c' s s' \<Longrightarrow> ok (k (next_pid s)) self s'"
  shows "ok (Async c' k) self s"
proof -
  have g0: "grows s (new_promise (Called c') s)" by (rule new_promise_ext)
  have "ok (k (next_pid s)) self s'"
    if h: "grows (new_promise (Called c') s) s'" "wf_store s'" "post c' s s'" for s'
  proof -
    have g: "grows s s'" using g0 h(1) by (rule grows_trans)
    have o: "origin s' (next_pid s) = Some (Called c')" "next_pid s < next_pid s'"
      using h(1) by (auto simp: grows_def new_promise_def)
    show ?thesis using assms(3) [OF g task_grows [OF assms(1) g h(2)] o h(3)] .
  qed
  with assms(2) show ?thesis by simp
qed

lemma ok_ReturnPromise_trivial:
  "task s self c \<Longrightarrow> p < next_pid s \<Longrightarrow> (\<And>v s'. value_ok c s' v) \<Longrightarrow>
   ok (ReturnPromise p) self s"
  by (auto intro: task_any task_grows)

lemma call_ok_analyzer:
  "wf_store s \<Longrightarrow> this_of c' = Some (analyzer s) \<Longrightarrow> vid_of c' = None \<Longrightarrow> call_ok c' s"
  by (simp add: wf_store_def wf_core_def call_ok_def)

lemma call_ok_same:
  "task s self c \<Longrightarrow> this_of c = this_of c' \<Longrightarrow> vid_of c' = None \<or> vid_of c' = vid_of c \<Longrightarrow>
   call_ok c' s"
  by (auto simp: task_def call_ok_def)

lemma task_wf: "task s self c \<Longrightarrow> wf_store s"
  by (simp add: task_def)

lemma task_new_promise: "task s self c \<Longrightarrow> task (new_promise src s) self c"
  by (rule task_grows [OF _ new_promise_ext new_promise_inv]) (auto simp: task_def)

lemma task_new_settled: "task s self c \<Longrightarrow> task (new_settled_promise r s) self c"
  by (rule task_grows [OF _ new_settled_promise_ext new_settled_promise_inv]) (auto simp: task_def)

lemma task_new_all: "task s self c \<Longrightarrow> task (new_all_promise ps s) self c"
  by (rule task_grows [OF _ new_all_promise_ext new_all_promise_inv]) (auto simp: task_def)

lemma ok_Return: "task s self c \<Longrightarrow> value_ok c s v \<Longrightarrow> ok (Return v) self s"
  by (simp add: task_fulfilled)

lemma ok_Throw: "task s self c \<Longrightarrow> ok (Throw e) self s"
  by (simp add: task_rejected)

lemma ok_Read: "ok (k s) self s \<Longrightarrow> ok (Read k) self s"
  by simp

lemma ok_Write:
  "task s self c \<Longrightarrow> grows s (f s) \<and> wf_store (f s) \<Longrightarrow>
   (task (f s) self c \<Longrightarrow> ok k self (f s)) \<Longrightarrow> ok (Write f k) self s"
  by (auto intro: task_grows)

lemma ok_Write_core:
  "task s self c \<Longrightarrow> same_core s (f s) \<Longrightarrow>
   (task (f s) self c \<Longrightarrow> ok k self (f s)) \<Longrightarrow> ok (Write f k) self s"
  by (rule ok_Write) (auto simp: same_core_grows same_core_wf task_wf)

lemma ok_External:
  "task s self c \<Longrightarrow>
   (task (new_promise (Outside r) s) self c \<Longrightarrow> ok (k (next_pid s)) self (new_promise (Outside r) s)) \<Longrightarrow>
   ok (External r k) self s"
  by (simp add: task_new_promise)

lemma ok_PromiseResolve:
  "task s self c \<Longrightarrow>
   (task (new_settled_promise (Fulfilled v) s) self c \<Longrightarrow>
      ok (k (next_pid s)) self (new_settled_promise (Fulfilled v) s)) \<Longrightarrow>
   ok (PromiseResolve v k) self s"
  by (simp add: task_new_settled)

lemma ok_PromiseAll:
  "task s self c \<Longrightarrow> (\<And>p. p \<in> set ps \<Longrightarrow> p < next_pid s) \<Longrightarrow>
   (task (new_all_promise ps s) self c \<Longrightarrow> ok (k (next_pid s)) self (new_all_promise ps s)) \<Longrightarrow>
   ok (PromiseAll ps k) self s"
  by (simp add: task_new_all)

lemma ok_Then_core:
  assumes "\<And>v s'. same_core s' (f v s')" "ok k self s" "p < next_pid s"
  shows "ok (Then p f k) self s"
proof -
  have "grows s' (f v s') \<and> wf_store (f v s')" if "wf_store s'" for v s'
    using same_core_grows [OF assms(1) [of s' v]] same_core_wf [OF assms(1) [of s' v]] that
    by simp
  with assms(2,3) show ?thesis by simp
qed

lemma ok_Await:
  "p < next_pid s \<Longrightarrow> (\<And>r s'. grows s s' \<Longrightarrow> wf_store s' \<Longrightarrow> settled s' p = Some r \<Longrightarrow> ok (k r) self s') \<Longrightarrow>
   ok (Await p k) self s"
  by simp

lemma ok_Await_task:
  assumes "task s self c" "p < next_pid s"
    and "\<And>r s'. grows s s' \<Longrightarrow> task s' self c \<Longrightarrow> settled s' p = Some r \<Longrightarrow> ok (k r) self s'"
  shows "ok (Await p k) self s"
  by (rule ok_Await) (use assms in \<open>auto intro: task_grows\<close>)

declare ok.simps [simp del]

lemma ok_Analyzer_load:
  assumes "task s self (Analyzer_load u c)"
  shows "ok (Analyzer_load_body u c) self s"
  unfolding Analyzer_load_body_def
  apply (rule ok_Read)
  apply (rule ok_Async_task [OF assms])
   apply (rule call_ok_analyzer [OF task_wf [OF assms]], simp, simp)
  apply (erule ok_ReturnPromise_trivial, assumption, simp)
  done

lemma next_pid_new_promise [simp]: "next_pid (new_promise src s) = Suc (next_pid s)"
  by (simp add: new_promise_def)

lemma next_pid_new_settled_promise [simp]:
  "next_pid (new_settled_promise r s) = Suc (next_pid s)"
  by (simp add: new_settled_promise_def)

lemma next_pid_new_all_promise [simp]: "next_pid (new_all_promise ps s) = Suc (next_pid s)"
  by (simp add: new_all_promise_def)

lemma ok_load:
  assumes "task s self (Load this u c)"
  shows "ok (load this u c) self s"
  unfolding load_def
  apply (rule ok_Read)
  apply (auto split: option.splits intro!: ok_Throw ok_Return assms)
  apply (rule ok_External [OF assms])
  apply (rule ok_await_task, assumption, simp)
  apply (erule ok_Return, simp)
  done

lemma ok_getScannedFeatures:
  assumes "task s self (GetScannedFeatures this d)"
  shows "ok (getScannedFeatures w this d) self s"
  unfolding getScannedFeatures_def
  apply (rule ok_Read)
  apply (auto split: option.splits intro!: ok_Return assms)
  apply (rule ok_External [OF assms])
  apply (erule ok_ReturnPromise_trivial, simp, simp)
  done

lemma grows_pid: "grows s s' \<Longrightarrow> p < next_pid s \<Longrightarrow> p < next_pid s'"
  by (auto simp: grows_def)

lemma known_lt: "known s p c \<Longrightarrow> p < next_pid s"
  by (simp add: known_def)

lemma known_grows: "known s p c \<Longrightarrow> grows s s' \<Longrightarrow> known s' p c"
  by (auto simp: known_def grows_def)

lemma known_value:
  "known s p c \<Longrightarrow> wf_store s \<Longrightarrow> settled s p = Some (Fulfilled v) \<Longrightarrow> value_ok c s v"
  unfolding known_def wf_store_def wf_core_def typed_def by fastforce

lemma scan_promise_known: "wf_store s \<Longrightarrow> scan_promise s p \<Longrightarrow> \<exists>this u c. known s p (Scan_async this u c)"
  using scan_promise_lt [of s p] by (auto simp: known_def scan_promise_def)

lemma known_scan_promise: "known s p (Scan_async this u c) \<Longrightarrow> scan_promise s p"
  by (auto simp: known_def scan_promise_def)

lemma ok_ReturnPromise_known:
  assumes "task s self c" "known s p c'"
    "\<And>v s'. grows s s' \<Longrightarrow> wf_store s' \<Longrightarrow> settled s' p = Some (Fulfilled v) \<Longrightarrow>
        value_ok c' s' v \<Longrightarrow> value_ok c s' v"
  shows "ok (ReturnPromise p) self s"
proof -
  have "typed s' self r" if h: "grows s s'" "wf_store s'" "settled s' p = Some r" for r s'
  proof (cases r)
    case (Fulfilled v)
    from known_value [OF known_grows [OF assms(2) h(1)] h(2)] h(3) Fulfilled
    have "value_ok c' s' v" by simp
    then have "value_ok c s' v" using assms(3) [OF h(1,2)] h(3) Fulfilled by simp
    then show ?thesis
      using Fulfilled task_fulfilled [OF task_grows [OF assms(1) h(1,2)]] by simp
  next
    case (Rejected e)
    then show ?thesis using task_rejected [OF task_grows [OF assms(1) h(1,2)]] by simp
  qed
  then show ?thesis using known_lt [OF assms(2)] by (simp add: ok.simps)
qed

lemma cached_promise_lt:
  assumes "wf_store s" "this < next_cid s"
    and "map_of (parsedDocumentPromises (the_cache s this)) u = Some p \<or>
         map_of (analyzedDocumentPromises (the_cache s this)) u = Some p \<or>
         map_of (dependenciesScanned (the_cache s this)) u = Some p"
  shows "p < next_pid s"
proof -
  from context_defined [OF assms(1,2)] obtain c where c: "contexts s this = Some c" ..
  then have "the_cache s this = c_cache c" by (simp add: the_cache_def the_context_def)
  with assms(3) have "p \<in> cached_promises (c_cache c)" by (auto simp: cached_promises_def)
  from wf_cached_lt [OF wf_storeD(2) [OF assms(1)] c this] show ?thesis .
qed

lemma cached_promises_lt:
  assumes "wf_store s" "this < next_cid s" "p \<in> cached_promises (the_cache s this)"
  shows "p < next_pid s"
  using assms cached_promise_lt [OF assms(1,2)] by (auto simp: cached_promises_def)

lemma ok_Async_known:
  assumes "task s self c" "call_ok c' s"
    and "\<And>s'. grows s s' \<Longrightarrow> task s' self c \<Longrightarrow> known s' (next_pid s) c' \<Longrightarrow>
           post c' s s' \<Longrightarrow> ok (k (next_pid s)) self s'"
  shows "ok (Async c' k) self s"
  by (rule ok_Async_task [OF assms(1,2)]) (rule assms(3), auto simp: known_def grows_def)

lemma post_cache: "post c s s' \<Longrightarrow> is_arrow c \<Longrightarrow> the_cache s' g = the_cache s g"
  by (simp add: post_def the_cache_def the_context_def)

lemma value_ok_Scan: "is_Scanned x \<Longrightarrow> cached s this u x \<Longrightarrow> value_ok (Scan this u c vo) s x"
  by simp

lemma cachedI:
  assumes "wf_store s" "this < next_cid s"
    "map_of (scannedDocumentPromises (the_cache s this)) u = Some sp"
    "settled s sp = Some (Fulfilled v)"
  shows "cached s this u v"
proof -
  from context_defined [OF assms(1,2)] obtain c where c: "contexts s this = Some c" ..
  then have "the_cache s this = c_cache c" by (simp add: the_cache_def the_context_def)
  with assms(3,4) c show ?thesis unfolding cached_def by auto
qed

lemma entry_grows:
  assumes "wf_store s" "this < next_cid s" "grows s s'"
    "map_of (scannedDocumentPromises (the_cache s this)) u = Some sp"
  shows "map_of (scannedDocumentPromises (the_cache s' this)) u = Some sp"
proof -
  from context_defined [OF assms(1,2)] obtain c where c: "contexts s this = Some c" ..
  then have tc: "the_cache s this = c_cache c" by (simp add: the_cache_def the_context_def)
  from assms(3) c obtain c' where c': "contexts s' this = Some c'" "cache_le (c_cache c) (c_cache c')"
    unfolding grows_def by blast
  then have "the_cache s' this = c_cache c'" by (simp add: the_cache_def the_context_def)
  with c'(2) assms(4) tc show ?thesis by (simp add: cache_le_def entries_le_def)
qed

lemma ok_parse:
  assumes t: "task s self (Parse this u c)"
  shows "ok (parse this u c) self s"
  unfolding parse_def
proof (rule ok_Read, cases "map_of (parsedDocumentPromises (the_cache s this)) u")
  case None
  have "ok (Async (Parse_async this u c)
         (\<lambda>promise. Write (set_parsedDocumentPromise this u promise) (ReturnPromise promise))) self s"
  proof (rule ok_Async_known [OF t])
    show "call_ok (Parse_async this u c) s" using t by (simp add: task_def call_ok_def)
  next
    fix s'
    assume h: "grows s s'" "task s' self (Parse this u c)" "post (Parse_async this u c) s s'"
      and k: "known s' (next_pid s) (Parse_async this u c)"
    have "map_of (parsedDocumentPromises (the_cache s' this)) u = None"
      using None post_cache [OF h(3)] by simp
    then have w: "grows s' (set_parsedDocumentPromise this u (next_pid s) s') \<and>
          wf_store (set_parsedDocumentPromise this u (next_pid s) s')"
      using set_parsedDocumentPromise_ok [OF task_wf [OF h(2)] task_this [OF h(2)] _ known_lt [OF k]]
      by simp
    have "next_pid s < next_pid (set_parsedDocumentPromise this u (next_pid s) s')"
      using known_lt [OF k] w by (auto simp: grows_def)
    with w show "ok (Write (set_parsedDocumentPromise this u (next_pid s)) (ReturnPromise (next_pid s))) self s'"
      by (rule_tac ok_Write [OF h(2)]) (assumption, erule ok_ReturnPromise_trivial, simp_all)
  qed
  with None show "ok (case map_of (parsedDocumentPromises (the_cache s this)) u of
            None \<Rightarrow> Async (Parse_async this u c)
                     (\<lambda>promise. Write (set_parsedDocumentPromise this u promise) (ReturnPromise promise))
          | Some cachedResult \<Rightarrow> ReturnPromise cachedResult) self s"
    by simp
next
  case (Some p)
  then show "ok (case map_of (parsedDocumentPromises (the_cache s this)) u of
            None \<Rightarrow> Async (Parse_async this u c)
                     (\<lambda>promise. Write (set_parsedDocumentPromise this u promise) (ReturnPromise promise))
          | Some cachedResult \<Rightarrow> ReturnPromise cachedResult) self s"
    using ok_ReturnPromise_trivial [OF t cached_promise_lt [OF task_wf [OF t] task_this [OF t]]]
    by auto
qed

lemma ok_ReturnPromise_link:
  assumes "task s self c" "p < next_pid s"
    "\<And>v s'. grows s s' \<Longrightarrow> wf_store s' \<Longrightarrow> settled s' p = Some (Fulfilled v) \<Longrightarrow> value_ok c s' v"
  shows "ok (ReturnPromise p) self s"
proof -
  have "typed s' self r" if h: "grows s s'" "wf_store s'" "settled s' p = Some r" for r s'
  proof (cases r)
    case (Fulfilled v)
    then show ?thesis
      using task_fulfilled [OF task_grows [OF assms(1) h(1,2)]] assms(3) [OF h(1,2)] h(3) by simp
  next
    case (Rejected e)
    then show ?thesis using task_rejected [OF task_grows [OF assms(1) h(1,2)]] by simp
  qed
  then show ?thesis using assms(2) by (simp add: ok.simps)
qed

lemma analyzedI:
  assumes "wf_store s" "this < next_cid s"
    "map_of (analyzedDocumentPromises (the_cache s this)) (resolveUrl (the_context s this) u) = Some p"
    "grows s s'" "settled s' p = Some (Fulfilled v)"
  shows "analyzed s' this u v"
proof -
  from context_defined [OF assms(1,2)] obtain c where c: "contexts s this = Some c" ..
  then have tc: "the_cache s this = c_cache c" "the_context s this = c"
    by (simp_all add: the_cache_def the_context_def)
  from assms(4) c obtain c' where c': "contexts s' this = Some c'"
    "cache_le (c_cache c) (c_cache c')" "c_resolver c' = c_resolver c"
    unfolding grows_def by blast
  have r: "resolveUrl c' u = resolveUrl c u" using c'(3) by (simp add: resolveUrl_def)
  have "map_of (analyzedDocumentPromises (c_cache c')) (resolveUrl c' u) = Some p"
    using c'(2) assms(3) tc r by (simp add: cache_le_def entries_le_def)
  with c'(1) assms(5) show ?thesis unfolding analyzed_def by blast
qed

lemma entry_set_analyzedDocumentPromise:
  "map_of (analyzedDocumentPromises (the_cache (set_analyzedDocumentPromise this u p s) this)) u = Some p"
  by (simp add: set_analyzedDocumentPromise_def the_cache_update_cache update_conv')

lemma the_context_set_analyzedDocumentPromise:
  "resolveUrl (the_context (set_analyzedDocumentPromise this u p s) g) v = resolveUrl (the_context s g) v"
  by (simp add: set_analyzedDocumentPromise_def update_cache_def the_context_def resolveUrl_def)

lemma resolveUrl_grows:
  assumes "wf_store s" "this < next_cid s" "grows s s'"
  shows "resolveUrl (the_context s' this) u = resolveUrl (the_context s this) u"
proof -
  from context_defined [OF assms(1,2)] obtain c where c: "contexts s this = Some c" ..
  from assms(3) c obtain c' where "contexts s' this = Some c'" "c_resolver c' = c_resolver c"
    unfolding grows_def by blast
  with c show ?thesis by (simp add: the_context_def resolveUrl_def)
qed

lemma ok_analyze:
  assumes t: "task s self (Analyze this u c)"
  shows "ok (analyze this u c) self s"
  unfolding analyze_def Let_def
proof (rule ok_Read, cases "map_of (analyzedDocumentPromises (the_cache s this)) (resolveUrl (the_context s this) u)")
  case None
  let ?ru = "resolveUrl (the_context s this) u"
  have lt: "this < next_cid s" using task_this [OF t] by simp
  have "ok (Async (Analyze_async this u ?ru c)
         (\<lambda>promise. Write (set_analyzedDocumentPromise this ?ru promise) (ReturnPromise promise))) self s"
  proof (rule ok_Async_known [OF t])
    show "call_ok (Analyze_async this u ?ru c) s" using t by (simp add: task_def call_ok_def)
  next
    fix s'
    let ?sw = "set_analyzedDocumentPromise this ?ru (next_pid s) s'"
    assume h: "grows s s'" "task s' self (Analyze this u c)" "post (Analyze_async this u ?ru c) s s'"
      and k: "known s' (next_pid s) (Analyze_async this u ?ru c)"
    have lt': "this < next_cid s'" using task_this [OF h(2)] by simp
    have "map_of (analyzedDocumentPromises (the_cache s' this)) ?ru = None"
      using None post_cache [OF h(3)] by simp
    then have w: "grows s' ?sw \<and> wf_store ?sw"
      using set_analyzedDocumentPromise_ok [OF task_wf [OF h(2)] lt' _ known_lt [OF k]] by simp
    have ltp: "next_pid s < next_pid ?sw"
      using known_lt [OF k] w by (auto simp: grows_def)
    have ltw: "this < next_cid ?sw" using grows_next_cid [OF conjunct1 [OF w] lt'] .
    have ru: "resolveUrl (the_context ?sw this) u = ?ru"
      using resolveUrl_grows [OF task_wf [OF t] lt h(1)]
      by (simp add: the_context_set_analyzedDocumentPromise)
    have e: "map_of (analyzedDocumentPromises (the_cache ?sw this))
               (resolveUrl (the_context ?sw this) u) = Some (next_pid s)"
      unfolding ru by (rule entry_set_analyzedDocumentPromise)
    show "ok (Write (set_analyzedDocumentPromise this ?ru (next_pid s)) (ReturnPromise (next_pid s))) self s'"
    proof (rule ok_Write [OF h(2)], rule w, rule ok_ReturnPromise_link, assumption, rule ltp)
      fix v s2
      assume "grows ?sw s2" "settled s2 (next_pid s) = Some (Fulfilled v)"
      from analyzedI [OF conjunct2 [OF w] ltw e this]
      show "value_ok (Analyze this u c) s2 v" by simp
    qed
  qed
  with None show "ok (case map_of (analyzedDocumentPromises (the_cache s this)) ?ru of
            None \<Rightarrow> Async (Analyze_async this u ?ru c)
                     (\<lambda>promise. Write (set_analyzedDocumentPromise this ?ru promise) (ReturnPromise promise))
          | Some cachedResult \<Rightarrow> ReturnPromise cachedResult) self s"
    by simp
next
  case (Some p)
  have lt: "this < next_cid s" using task_this [OF t] by simp
  have "ok (ReturnPromise p) self s"
  proof (rule ok_ReturnPromise_link [OF t])
    show "p < next_pid s" using cached_promise_lt [OF task_wf [OF t] lt] Some by blast
  next
    fix v s2
    assume "grows s s2" "settled s2 p = Some (Fulfilled v)"
    from analyzedI [OF task_wf [OF t] lt Some this]
    show "value_ok (Analyze this u c) s2 v" by simp
  qed
  with Some show "ok (case map_of (analyzedDocumentPromises (the_cache s this)) (resolveUrl (the_context s this) u) of
            None \<Rightarrow> Async (Analyze_async this u (resolveUrl (the_context s this) u) c)
                     (\<lambda>promise. Write (set_analyzedDocumentPromise this (resolveUrl (the_context s this) u) promise) (ReturnPromise promise))
          | Some cachedResult \<Rightarrow> ReturnPromise cachedResult) self s"
    by simp
qed

lemma context_entries:
  "wf_store s \<Longrightarrow> g < next_cid s \<Longrightarrow>
   map_of (scannedDocumentPromises (the_cache s g)) u = Some p \<Longrightarrow> scan_promise s p"
proof -
  assume wf: "wf_store s" and lt: "g < next_cid s"
    and m: "map_of (scannedDocumentPromises (the_cache s g)) u = Some p"
  from context_defined [OF wf lt] obtain c where c: "contexts s g = Some c" ..
  then have "the_cache s g = c_cache c" by (simp add: the_cache_def the_context_def)
  with wf c m show ?thesis unfolding wf_store_def wf_core_def by metis
qed

lemma ok_Analyzer_analyze:
  assumes t: "task s self (Analyzer_analyze u contents)"
  shows "ok (Analyzer_analyze_body u contents) self s"
proof -
  have rest: "ok (Read (\<lambda>s. Async (Analyze (analyzer s) u contents) ReturnPromise)) self s'"
    if "task s' self (Analyzer_analyze u contents)" for s'
    apply (rule ok_Read)
    apply (rule ok_Async_task [OF that])
     apply (rule call_ok_analyzer [OF task_wf [OF that]], simp, simp)
    apply (erule ok_ReturnPromise_trivial, simp, simp)
    done
  show ?thesis
  proof (cases contents)
    case None
    then show ?thesis unfolding Analyzer_analyze_body_def using rest [OF t] by simp
  next
    case (Some c)
    have a: "analyzer s < next_cid s" using task_wf [OF t] by (simp add: wf_store_def wf_core_def)
    have g: "grows s (s\<lparr>contexts := (contexts s)(next_cid s \<mapsto>
                          fileChanged s (the_context s (analyzer s)) u),
                       analyzer := next_cid s, next_cid := next_cid s + 1\<rparr>) \<and>
             wf_store (s\<lparr>contexts := (contexts s)(next_cid s \<mapsto>
                          fileChanged s (the_context s (analyzer s)) u),
                       analyzer := next_cid s, next_cid := next_cid s + 1\<rparr>)"
      apply (rule new_context_ok [OF task_wf [OF t]])
       apply (drule fileChanged_scanned_entries)
       apply (rule context_entries [OF task_wf [OF t] a])
       apply (simp add: the_cache_def)
      apply (drule fileChanged_cached_promises)
      apply (rule cached_promises_lt [OF task_wf [OF t] a])
      apply (simp add: the_cache_def)
      done
    show ?thesis
      unfolding Analyzer_analyze_body_def Some
      apply simp
      apply (rule ok_Write [OF t])
       apply (rule g [simplified])
      apply (drule rest)
      apply (simp add: Some)
      done
  qed
qed

lemma ok_analyze_async:
  assumes t: "task s self (Analyze_async this u ru c)"
  shows "ok (analyze_async w fuel this u ru c) self s"
  unfolding analyze_async_def
  apply (rule ok_PromiseResolve [OF t])
  apply (rule ok_await_task, assumption, simp)
  apply (rule ok_Async_task, assumption)
   apply (erule call_ok_same, simp, simp)
  apply (rule ok_await_task, assumption, simp)
  subgoal for v s' s'' v' s'''
    unfolding analyze_resume_def
    apply (cases "v' = Visited")
     apply (simp, erule ok_Throw)
    apply simp
    apply (rule ok_PromiseResolve, assumption)
    apply (rule ok_await_task, assumption, simp)
    subgoal for v2 s4
      apply (cases v')
             apply (simp_all add: ok_Throw)
      apply (rule ok_Read)
      apply (rule ok_Write, assumption)
       apply (rule makeDocument_ok)
        apply (erule task_wf)
       apply (erule task_this, simp)
      apply (auto split: sum.splits intro: ok_Throw ok_Return)
      done
    done
  done

lemma ok_parse_async:
  assumes t: "task s self (Parse_async this u c)"
  shows "ok (parse_async w this u c) self s"
  unfolding parse_async_def
  apply (rule ok_PromiseResolve [OF t])
  apply (rule ok_await_task, assumption, simp)
  apply (rule ok_Async_task, assumption)
   apply (erule call_ok_same, simp, simp)
  apply (rule ok_await_task, assumption, simp)
  subgoal for v s' s'' v' s'''
    unfolding parse_resume_def
    apply (cases v')
           apply (simp_all add: ok_Throw)
    apply (rule ok_Read)
    apply (auto simp: Let_def split: sum.splits intro: ok_Throw ok_Return)
    done
  done

lemma ok_scan_async:
  assumes t: "task s self (Scan_async this u c)"
  shows "ok (scan_async this u c) self s"
  unfolding scan_async_def
  apply (rule ok_PromiseResolve [OF t])
  apply (rule ok_await_task, assumption, simp)
  apply (rule ok_Async_task, assumption)
   apply (erule call_ok_same, simp, simp)
  apply (rule ok_await_task, assumption, simp)
  subgoal for v s' s'' v' s'''
    apply (cases v')
           apply (simp_all add: ok_Throw)
    apply (rule ok_Async_known, assumption)
     apply (erule call_ok_same, simp, simp)
    apply (erule ok_ReturnPromise_known, assumption)
    apply simp
    done
  done

lemma task_settled_lt: "task s self c \<Longrightarrow> settled s p = Some r \<Longrightarrow> p < next_pid s"
  by (rule settled_lt [OF task_wf])

lemma ok_scanInlineSource:
  assumes t: "task s self (ScanInlineSource this ty c u v ii ac)"
  shows "ok (scanInlineSource w this ty c u v ii ac) self s"
  unfolding scanInlineSource_def Let_def
  apply (rule ok_Read)
  apply (cases "parseContents w (the_context s this) ty c (resolveUrl (the_context s this) u) ii")
   apply (simp add: ok_Throw [OF t])
  apply simp
  apply (rule ok_Async_task [OF t])
   apply (rule call_ok_same [OF t], simp, simp)
  apply (rule ok_await_task, assumption, simp)
  subgoal for b s' v' s''
    apply (cases v')
           apply (simp_all add: ok_Throw)
    apply (rule ok_Async_task, assumption)
     apply (erule call_ok_same, simp, simp)
    apply (rule ok_await_task, assumption, simp)
    apply (erule ok_Return, simp)
    done
  done

lemma ok_scanDocument_store:
  assumes t: "task s self (ScanDocument this doc ac)"
  shows "ok (if \<not> isInline x then
               Read (\<lambda>s'.
                 if has (scannedDocuments (the_cache s' this)) (sd_url x)
                 then Throw e
                 else Write (set_scannedDocument this (sd_url x) n) (Return (Scanned n)))
             else Return (Scanned n)) self s"
proof (cases "isInline x")
  case True
  then show ?thesis using ok_Return [OF t] by simp
next
  case False
  show ?thesis
  proof (cases "has (scannedDocuments (the_cache s this)) (sd_url x)")
    case True
    with False show ?thesis using ok_Throw [OF t] by (simp add: ok_Read)
  next
    case h: False
    then have n: "map_of (scannedDocuments (the_cache s this)) (sd_url x) = None"
      by (simp add: has_def)
    have "ok (Write (set_scannedDocument this (sd_url x) n) (Return (Scanned n))) self s"
      apply (rule ok_Write [OF t])
       apply (rule set_scannedDocument_ok [OF task_wf [OF t] task_this [OF t] n], simp)
      apply (erule ok_Return, simp)
      done
    with False h show ?thesis by (simp add: ok_Read)
  qed
qed

lemma ok_scanDocument:
  assumes t: "task s self (ScanDocument this doc ac)"
  shows "ok (scanDocument this doc ac) self s"
  unfolding scanDocument_def Let_def
  apply (rule ok_Async_task [OF t])
   apply (rule call_ok_same [OF t], simp, simp)
  apply (rule ok_await_task, assumption, simp)
  subgoal for s' v' s''
    unfolding scanDocument_resume_def Let_def
    apply (cases v')
           apply (simp_all add: ok_Throw)
    apply (rule ok_Read)
    apply (rule ok_Write_core, assumption)
     apply (rule same_core_simps)
    apply (erule ok_scanDocument_store)
    done
  done

lemma ok_scanDependenciesOfToplevelDoc:
  assumes t: "task s self (ScanDependenciesOfToplevelDoc this d v)"
  shows "ok (scanDependenciesOfToplevelDoc this d v) self s"
proof (cases d)
  case (Scanned sd)
  have w: "ok (Write (set_dependenciesScanned this u p)
             (await_value p (\<lambda>_. ReturnPromise p))) self s'"
    if that: "task s' self (ScanDependenciesOfToplevelDoc this d v)" "p < next_pid s'" for s' u p
  proof -
    have lt: "this < next_cid s'" using task_this [OF that(1)] by simp
    note g = set_dependenciesScanned_ok [OF task_wf [OF that(1)] lt that(2), of u]
    show ?thesis
      apply (rule ok_Write [OF that(1)])
       apply (rule g)
      apply (rule ok_await_task, assumption)
       apply (rule grows_pid [OF conjunct1 [OF g] that(2)])
      apply (rule ok_ReturnPromise_trivial, assumption)
       apply (erule (1) task_settled_lt)
      apply simp
      done
  qed
  have lt: "this < next_cid s" using task_this [OF t] by simp
  show ?thesis
    unfolding scanDependenciesOfToplevelDoc_def Scanned Let_def
    apply simp
    apply (rule ok_Read)
    apply (cases "map_of (dependenciesScanned (the_cache s this)) (sd_url (the_sdoc s sd))")
     apply simp
     apply (rule ok_Async_task [OF t])
      apply (rule call_ok_same [OF t], simp, simp)
     apply (erule w, assumption)
    apply simp
    apply (rule w [OF t])
    apply (rule cached_promise_lt [OF task_wf [OF t] lt])
    apply (rule disjI2, rule disjI2, assumption)
    done
qed (simp_all add: scanDependenciesOfToplevelDoc_def ok_Throw [OF t])

lemma ok_async_map:
  assumes "task s self c"
    and "\<And>c'. c' \<in> set cs \<Longrightarrow> this_of c' = this_of c \<and> vid_of c' = vid_of c"
    and "\<And>ps s'. grows s s' \<Longrightarrow> task s' self c \<Longrightarrow> (\<And>p. p \<in> set ps \<Longrightarrow> p < next_pid s') \<Longrightarrow>
           ok (k ps) self s'"
  shows "ok (async_map cs k) self s"
  using assms
proof (induction cs arbitrary: s k)
  case Nil
  have "ok (k []) self s" by (rule Nil(3) [OF grows_refl Nil(1)]) simp
  then show ?case by simp
next
  case (Cons c' cs)
  have "ok (Async c' (\<lambda>p. async_map cs (\<lambda>ps. k (p # ps)))) self s"
  proof (rule ok_Async_task [OF Cons.prems(1)])
    show "call_ok c' s"
      by (rule call_ok_same [OF Cons.prems(1)]) (simp_all add: Cons.prems(2))
  next
    fix s'
    assume h: "grows s s'" "task s' self c" "next_pid s < next_pid s'"
    show "ok (async_map cs (\<lambda>ps. k (next_pid s # ps))) self s'"
    proof (rule Cons.IH [OF h(2)])
      fix c'' assume "c'' \<in> set cs"
      then show "this_of c'' = this_of c \<and> vid_of c'' = vid_of c" by (simp add: Cons.prems(2))
    next
      fix ps s''
      assume g: "grows s' s''" "task s'' self c" "\<And>p. p \<in> set ps \<Longrightarrow> p < next_pid s''"
      show "ok (k (next_pid s # ps)) self s''"
      proof (rule Cons.prems(3) [OF grows_trans [OF h(1) g(1)] g(2)])
        fix p assume "p \<in> set (next_pid s # ps)"
        then show "p < next_pid s''" using g(3) grows_pid [OF g(1) h(3)] by auto
      qed
    qed
  qed
  then show ?case by simp
qed

lemma ok_scanDependencies:
  assumes t: "task s self (ScanDependencies this d v)"
  shows "ok (scanDependencies this d v) self s"
  unfolding scanDependencies_def Let_def
  apply (rule ok_Read)
  apply (rule ok_async_map [OF t])
   apply auto[1]
  apply (rule ok_PromiseAll, assumption, simp)
  apply (rule ok_await_task, assumption, simp)
  apply (erule ok_Return, simp)
  done

lemma ok_scanDependency:
  assumes t: "task s self (ScanDependency this d i v)"
  shows "ok (scanDependency this d i v) self s"
  unfolding scanDependency_def
  apply (rule ok_Read)
  apply (cases "the_feature s d i")
     apply (simp_all add: ok_Throw [OF t] ok_Return [OF t])
   apply (intro conjI impI)
   apply (rule ok_Async_task [OF t])
    apply (rule call_ok_same [OF t], simp, simp)
   apply (erule ok_ReturnPromise_trivial, simp, simp)
  apply (rule ok_Async_task [OF t])
   apply (rule call_ok_same [OF t], simp, simp)
  apply (erule ok_ReturnPromise_trivial, simp, simp)
  done

lemma ok_scanInlineDocument:
  assumes t: "task s self (ScanInlineDocument this d i cd ws v)"
  shows "ok (scanInlineDocument this d i cd ws v) self s"
  unfolding scanInlineDocument_def Let_def
  apply (rule ok_Read)
  apply (cases "the_feature s d i")
     apply (simp_all add: ok_Throw [OF t])
  apply (rule ok_Async_task [OF t])
   apply (rule call_ok_same [OF t], simp, simp)
  apply (rule ok_Await_task, assumption, simp)
  subgoal for x21 x22 x23 x24 x25 x26 s' r s''
    apply (cases r)
    subgoal for val
      apply (cases val)
             apply (simp_all add: ok_Throw)
      apply (rule ok_Write_core, assumption)
       apply (rule same_core_simps)
      apply (erule ok_Return, simp)
      done
    subgoal for e
      apply (cases e)
         apply (simp_all add: ok_Throw)
      apply (rule ok_Write_core, assumption)
       apply (rule same_core_simps)
      apply (erule ok_Return, simp)
      done
    done
  done

lemma ok_scanImport_resume:
  assumes t: "task s self (ScanImport this d i ws v)"
  shows "ok (scanImport_resume this d i ws u r) self s"
  unfolding scanImport_resume_def
  using task_this [OF t, of this, simplified]
  apply -
  subgoal premises lt
  apply (cases r)
   apply simp
   apply (rule ok_Read)
   apply (cases "map_of (scannedDocumentPromises (the_cache s this)) u")
    apply (simp add: ok_Throw [OF t])
   apply simp
   apply (rule ok_Then_core)
     apply (rule same_core_simps)
    apply (rule ok_Return [OF t], simp)
   apply (rule scan_promise_lt [OF task_wf [OF t]])
   apply (rule context_entries [OF task_wf [OF t] lt], assumption)
  apply simp
  apply (intro conjI impI)
   apply (rule ok_Return [OF t], simp)
  apply (rule ok_Read)
  apply (rule ok_Write_core [OF t])
   apply (rule same_core_simps)
  apply (erule ok_Return, simp)
  done
  done

lemma ok_scanImport:
  assumes t: "task s self (ScanImport this d i ws v)"
  shows "ok (scanImport this d i ws v) self s"
  unfolding scanImport_def Let_def
  apply (rule ok_Read)
  apply (cases "the_feature s d i")
     apply (simp_all add: ok_Throw [OF t])
  apply (rule ok_Async_task [OF t])
   apply (rule call_ok_same [OF t], simp, simp)
  apply (rule ok_Await_task, assumption, simp)
  apply (erule ok_scanImport_resume)
  done

lemma grows_vid: "grows s s' \<Longrightarrow> v < next_vid s \<Longrightarrow> v < next_vid s'"
  by (simp add: grows_def)

lemma call_ok_deps:
  "task s self (Scan this u c vo) \<Longrightarrow> v < next_vid s \<Longrightarrow>
   call_ok (ScanDependenciesOfToplevelDoc this x v) s"
  by (simp add: task_def call_ok_def)

lemma entry_set_scannedDocumentPromise:
  "map_of (scannedDocumentPromises (the_cache (set_scannedDocumentPromise this u p s) this)) u = Some p"
  by (simp add: set_scannedDocumentPromise_def the_cache_update_cache update_conv')

lemma ok_scan_rest:
  assumes t: "task s self (Scan this u c vo)" and vlt: "v < next_vid s"
  shows "ok (scan_rest this u c v) self s"
  unfolding scan_rest_def
proof (rule ok_Write [OF t], rule visited_add_ok [OF task_wf [OF t]], rule ok_Read)
  let ?s = "visited_add v u s"
  assume t1: "task ?s self (Scan this u c vo)"
  have g0: "grows s ?s" using visited_add_ok [OF task_wf [OF t]] by simp
  have vlt1: "v < next_vid ?s" using grows_vid [OF g0 vlt] .
  have deps: "ok (Async (ScanDependenciesOfToplevelDoc this x v) (\<lambda>p. await_value p (\<lambda>_. k))) self s'"
    if "task s' self (Scan this u c vo)" "v < next_vid s'"
      and "\<And>s''. grows s' s'' \<Longrightarrow> task s'' self (Scan this u c vo) \<Longrightarrow> ok k self s''"
    for s' x k
    apply (rule ok_Async_task [OF that(1)])
     apply (rule call_ok_deps [OF that(1,2)])
    apply (rule ok_await_task, assumption, simp)
    apply (rule that(3))
     apply (erule (1) grows_trans)
    apply assumption
    done
  have lt1: "this < next_cid ?s" using task_this [OF t1] by simp
  show "ok (case map_of (scannedDocumentPromises (the_cache ?s this)) u of
            None \<Rightarrow>
              Async (Scan_async this u c) (\<lambda>promise.
                Write (set_scannedDocumentPromise this u promise)
                  (await_value promise (\<lambda>scannedDocument.
                     Async (ScanDependenciesOfToplevelDoc this scannedDocument v) (\<lambda>p.
                       await_value p (\<lambda>_. Return scannedDocument)))))
          | Some cachedResult \<Rightarrow>
              await_value cachedResult (\<lambda>va.
                Async (ScanDependenciesOfToplevelDoc this va v) (\<lambda>p.
                  await_value p (\<lambda>_. ReturnPromise cachedResult)))) self ?s"
  proof (cases "map_of (scannedDocumentPromises (the_cache ?s this)) u")
    case (Some cachedResult)
    from context_entries [OF task_wf [OF t1] lt1 Some]
    have "scan_promise ?s cachedResult" by simp
    from scan_promise_known [OF task_wf [OF t1] this]
    obtain this' u' c' where k: "known ?s cachedResult (Scan_async this' u' c')" by blast
    have "ok (await_value cachedResult (\<lambda>va.
                Async (ScanDependenciesOfToplevelDoc this va v) (\<lambda>p.
                  await_value p (\<lambda>_. ReturnPromise cachedResult)))) self ?s"
    proof (rule ok_await_task [OF t1], rule known_lt [OF k], rule deps, assumption)
      fix va s'
      assume "grows ?s s'"
      then show "v < next_vid s'" using vlt1 by (rule grows_vid)
    next
      fix va s' s''
      assume h: "grows ?s s'" "grows s' s''" "task s'' self (Scan this u c vo)"
      have g2: "grows ?s s''" using h(1,2) by (rule grows_trans)
      have k2: "known s'' cachedResult (Scan_async this' u' c')"
        using k g2 by (rule known_grows)
      show "ok (ReturnPromise cachedResult) self s''"
      proof (rule ok_ReturnPromise_known [OF h(3) k2])
        fix x s3
        assume a: "grows s'' s3" "wf_store s3" "settled s3 cachedResult = Some (Fulfilled x)"
          "value_ok (Scan_async this' u' c') s3 x"
        have g3: "grows ?s s3" using g2 a(1) by (rule grows_trans)
        have e: "map_of (scannedDocumentPromises (the_cache s3 this)) u = Some cachedResult"
          by (rule entry_grows [OF task_wf [OF t1] lt1 g3 Some])
        have "cached s3 this u x"
          by (rule cachedI [OF a(2) grows_next_cid [OF g3 lt1] e a(3)])
        with a(4) show "value_ok (Scan this u c vo) s3 x" by simp
      qed
    qed
    with Some show ?thesis by simp
  next
    case None
    have "ok (Async (Scan_async this u c) (\<lambda>promise.
                Write (set_scannedDocumentPromise this u promise)
                  (await_value promise (\<lambda>scannedDocument.
                     Async (ScanDependenciesOfToplevelDoc this scannedDocument v) (\<lambda>p.
                       await_value p (\<lambda>_. Return scannedDocument)))))) self ?s"
    proof (rule ok_Async_known [OF t1])
      show "call_ok (Scan_async this u c) ?s" by (rule call_ok_same [OF t1]) simp_all
    next
      fix s'
      let ?p = "next_pid ?s"
      let ?sw = "set_scannedDocumentPromise this u ?p s'"
      assume h: "grows ?s s'" "task s' self (Scan this u c vo)"
        "known s' ?p (Scan_async this u c)" "post (Scan_async this u c) ?s s'"
      have n: "map_of (scannedDocumentPromises (the_cache s' this)) u = None"
        using None post_cache [OF h(4)] by simp
      have lt': "this < next_cid s'" using task_this [OF h(2)] by simp
      have w: "grows s' ?sw \<and> wf_store ?sw"
        by (rule set_scannedDocumentPromise_ok [OF task_wf [OF h(2)] lt' n
              known_scan_promise [OF h(3)]])
      have ltw: "this < next_cid ?sw" using grows_next_cid [OF conjunct1 [OF w] lt'] .
      have vw: "v < next_vid ?sw"
        using grows_vid [OF conjunct1 [OF w] grows_vid [OF h(1) vlt1]] .
      show "ok (Write (set_scannedDocumentPromise this u ?p)
                  (await_value ?p (\<lambda>scannedDocument.
                     Async (ScanDependenciesOfToplevelDoc this scannedDocument v) (\<lambda>p.
                       await_value p (\<lambda>_. Return scannedDocument))))) self s'"
      proof (rule ok_Write [OF h(2)], rule w, rule ok_await_task, assumption,
          rule grows_pid [OF conjunct1 [OF w] known_lt [OF h(3)]], rule deps, assumption)
        fix x s2
        assume "grows ?sw s2"
        then show "v < next_vid s2" using vw by (rule grows_vid)
      next
        fix x s2 s3
        assume g: "grows ?sw s2"
          "task s2 self (Scan this u c vo)" "settled s2 ?p = Some (Fulfilled x)"
          "grows s2 s3" "task s3 self (Scan this u c vo)"
        have "known s2 ?p (Scan_async this u c)"
          using h(3) w g(1) by (blast intro: known_grows)
        from known_value [OF this task_wf [OF g(2)] g(3)] have sc: "is_Scanned x" by simp
        have g3: "grows ?sw s3" using g(1,4) by (rule grows_trans)
        have e: "map_of (scannedDocumentPromises (the_cache s3 this)) u = Some ?p"
          by (rule entry_grows [OF conjunct2 [OF w] ltw g3 entry_set_scannedDocumentPromise])
        have st: "settled s3 ?p = Some (Fulfilled x)"
          using g(3,4) by (simp add: grows_def)
        have "cached s3 this u x"
          by (rule cachedI [OF task_wf [OF g(5)] grows_next_cid [OF g3 ltw] e st])
        with sc show "ok (Return x) self s3"
          by (intro ok_Return [OF g(5)] value_ok_Scan)
      qed
    qed
    with None show ?thesis by simp
  qed
qed

lemma ok_scan:
  assumes t: "task s self (Scan this u c vo)"
  shows "ok (scan this u c vo) self s"
proof (cases vo)
  case None
  have g: "grows s (new_Set s) \<and> wf_store (new_Set s)" by (rule new_Set_ok [OF task_wf [OF t]])
  have "ok (Write new_Set (scan_rest this u c (next_vid s))) self s"
    apply (rule ok_Write [OF t])
     apply (rule g)
    apply (erule ok_scan_rest)
    apply (simp add: new_Set_def)
    done
  with None show ?thesis by (simp add: scan_def ok_Read)
next
  case (Some a)
  have a: "a < next_vid s" using t Some by (simp add: task_def call_ok_def)
  show ?thesis
  proof (cases "u \<in> set (the_visited s a)")
    case True
    have "ok (Return Visited) self s"
      by (rule ok_Return [OF t]) (use Some a True in \<open>simp add: in_visited_def\<close>)
    with Some True show ?thesis by (simp add: scan_def ok_Read)
  next
    case False
    with Some show ?thesis using ok_scan_rest [OF t a] by (simp add: scan_def ok_Read)
  qed
qed

theorem bodies_ok: "task s self c \<Longrightarrow> ok (body w fuel c) self s"
  by (cases c)
     (simp_all add: ok_Analyzer_analyze ok_Analyzer_load ok_analyze ok_analyze_async ok_scan
      ok_scan_async ok_scanInlineSource ok_scanDocument ok_scanDependenciesOfToplevelDoc
      ok_scanDependencies ok_scanDependency ok_scanInlineDocument ok_scanImport ok_load ok_parse
      ok_parse_async ok_getScannedFeatures)

section \<open>Every step keeps the invariant\<close>

lemma grows_origin: "grows s s' \<Longrightarrow> p < next_pid s \<Longrightarrow> origin s' p = origin s p"
  by (simp add: grows_def)

lemma grows_settled: "grows s s' \<Longrightarrow> settled s p = Some r \<Longrightarrow> settled s' p = Some r"
  by (simp add: grows_def)

lemma reaction_ok_grows:
  assumes "reaction_ok p x s" "grows s s'"
  shows "reaction_ok p x s'"
proof (cases x)
  case (Resume k self)
  with assms show ?thesis
    by (auto simp: reaction_ok_def intro: grows_pid grows_trans)
next
  case (Adopt q)
  with assms show ?thesis
    by (auto simp: reaction_ok_def intro: grows_pid grows_trans)
next
  case (AllElement q)
  with assms show ?thesis
    by (auto simp: reaction_ok_def grows_origin intro: grows_pid)
next
  case (Callback f)
  with assms show ?thesis
    by (auto simp: reaction_ok_def intro: grows_pid grows_trans)
qed

lemma job_ok_grows:
  assumes "job_ok j s" "grows s s'"
  shows "job_ok j s'"
proof (cases j)
  case (Reaction x r)
  show ?thesis
  proof (cases x)
    case (Resume k self)
    with Reaction assms show ?thesis
      by (auto simp: job_ok_def intro: grows_pid grows_trans)
  next
    case (Adopt q)
    with Reaction assms show ?thesis
      by (auto simp: job_ok_def intro: grows_pid typed_grows)
  next
    case (AllElement q)
    with Reaction assms show ?thesis
      by (auto simp: job_ok_def grows_origin intro: grows_pid)
  next
    case (Callback f)
    with Reaction assms show ?thesis
      by (auto simp: job_ok_def intro: grows_trans)
  qed
next
  case (ResolveThenable q p)
  with assms show ?thesis
    by (auto simp: job_ok_def intro: grows_pid grows_trans)
qed

lemma reaction_job:
  assumes "reaction_ok p x s" "wf_store s" "settled s p = Some r"
  shows "job_ok (Reaction x r) s"
proof (cases x)
  case (Resume k self)
  with assms show ?thesis
    by (auto simp: reaction_ok_def job_ok_def intro: grows_settled)
next
  case (Adopt q)
  with assms show ?thesis
    using grows_refl [of s] by (auto simp: reaction_ok_def job_ok_def)
next
  case (AllElement q)
  with assms show ?thesis by (auto simp: reaction_ok_def job_ok_def)
next
  case (Callback f)
  with assms show ?thesis by (auto simp: reaction_ok_def job_ok_def)
qed

lemma machine_ok_store:
  assumes "machine_ok m" "grows (store m) s'" "wf_store s'"
  shows "machine_ok (m\<lparr>store := s'\<rparr>)"
  using assms by (auto simp: machine_ok_def intro: reaction_ok_grows job_ok_grows)

lemma settle_ok:
  assumes ok: "machine_ok m" and q: "q < next_pid (store m)" and t: "typed (store m) q r"
  shows "machine_ok (settle q r m) \<and> grows (store m) (store (settle q r m))"
proof (cases "settled (store m) q")
  case (Some a)
  with ok show ?thesis by (simp add: settle_def grows_refl)
next
  case None
  let ?s = "store m"
  let ?s' = "settle_promise q r ?s"
  have wf: "wf_store ?s" using ok by (simp add: machine_ok_def)
  have g: "grows ?s ?s'" using None by (rule settle_promise_ext)
  have wf': "wf_store ?s'" by (rule settle_promise_inv [OF wf q t None])
  have st: "settled ?s' q = Some r" by (simp add: settle_promise_def)
  have new: "job_ok (Reaction x r) ?s'" if "x \<in> set (reactions m q)" for x
  proof -
    from ok that have "reaction_ok q x ?s" by (simp add: machine_ok_def)
    from reaction_job [OF reaction_ok_grows [OF this g] wf' st] show ?thesis .
  qed
  have "machine_ok (settle q r m)"
    using ok None wf' new g
    by (auto simp: settle_def machine_ok_def intro: reaction_ok_grows job_ok_grows)
  moreover have "store (settle q r m) = ?s'" using None by (simp add: settle_def)
  ultimately show ?thesis using g by simp
qed

lemma subscribe_ok:
  assumes "machine_ok m" "reaction_ok p x (store m)"
  shows "machine_ok (subscribe p x m) \<and> store (subscribe p x m) = store m"
proof (cases "settled (store m) p")
  case None
  with assms show ?thesis by (auto simp: subscribe_def machine_ok_def)
next
  case (Some r)
  have "job_ok (Reaction x r) (store m)"
    using reaction_job [OF assms(2) _ Some] assms(1) by (simp add: machine_ok_def)
  with assms Some show ?thesis by (auto simp: subscribe_def machine_ok_def)
qed

lemma enqueue_ok:
  "machine_ok m \<Longrightarrow> job_ok j (store m) \<Longrightarrow> machine_ok (m\<lparr>microtasks := microtasks m @ [j]\<rparr>)"
  by (auto simp: machine_ok_def)

lemma fold_subscribe_ok:
  assumes "\<And>p. p \<in> set ps \<Longrightarrow> reaction_ok p x (store m)" "machine_ok m"
  shows "machine_ok (fold (\<lambda>p. subscribe p x) ps m) \<and>
         store (fold (\<lambda>p. subscribe p x) ps m) = store m"
  using assms
proof (induction ps arbitrary: m)
  case Nil
  then show ?case by simp
next
  case (Cons p ps)
  from subscribe_ok [OF Cons.prems(2), of p x] Cons.prems(1)
  have 1: "machine_ok (subscribe p x m)" "store (subscribe p x m) = store m" by simp_all
  from Cons.IH [of "subscribe p x m"] 1 Cons.prems(1) show ?case by simp
qed

lemma promise_all_ok:
  assumes ok: "machine_ok m" and ps: "\<And>p. p \<in> set ps \<Longrightarrow> p < next_pid (store m)"
  shows "machine_ok (promise_all ps m) \<and> store (promise_all ps m) = new_all_promise ps (store m)"
proof -
  let ?s = "store m"
  let ?m1 = "m\<lparr>store := new_all_promise ps ?s, all_remaining := (all_remaining m)(next_pid ?s := length ps)\<rparr>"
  have wf: "wf_store ?s" using ok by (simp add: machine_ok_def)
  have 1: "machine_ok ?m1"
    using machine_ok_store [OF ok new_all_promise_ext [OF wf] new_all_promise_inv [OF wf], of ps]
    by (simp add: machine_ok_def)
  have o: "origin ?s (next_pid ?s) = None" using wf by (simp add: wf_store_def wf_core_def)
  have r: "reaction_ok p (AllElement (next_pid ?s)) (store ?m1)" if "p \<in> set ps" for p
    using o ps [OF that]
    by (simp add: reaction_ok_def new_all_promise_def new_settled_promise_def)
  from fold_subscribe_ok [of ps "AllElement (next_pid ?s)" ?m1, OF r 1]
  show ?thesis by (simp add: promise_all_def Let_def)
qed

lemma exec_ok:
  assumes h: "handler_ok h"
  shows "machine_ok m \<Longrightarrow> self < next_pid (store m) \<Longrightarrow> ok prog self (store m) \<Longrightarrow>
         machine_ok (exec prog h self m) \<and> grows (store m) (store (exec prog h self m))"
proof (induction prog arbitrary: m)
  case (Return v)
  then show ?case using settle_ok [of m self "Fulfilled v"] by (simp add: ok.simps)
next
  case (Throw e)
  then show ?case using settle_ok [of m self "Rejected e"] by (simp add: ok.simps)
next
  case (ReturnPromise p)
  have "job_ok (ResolveThenable self p) (store m)"
    using ReturnPromise.prems by (simp add: job_ok_def ok.simps)
  from enqueue_ok [OF ReturnPromise.prems(1) this] show ?case by (simp add: grows_refl)
next
  case (Await p k)
  have "reaction_ok p (Resume k self) (store m)"
    using Await.prems by (simp add: reaction_ok_def ok.simps)
  from subscribe_ok [OF Await.prems(1) this] show ?case by (simp add: grows_refl)
next
  case (Read k)
  from Read.IH [OF _ Read.prems(1,2)] Read.prems(3) show ?case by (simp add: ok.simps)
next
  case (Write f k)
  let ?m1 = "m\<lparr>store := f (store m)\<rparr>"
  from Write.prems(3) have f: "grows (store m) (f (store m))" "wf_store (f (store m))"
    "ok k self (f (store m))" by (simp_all add: ok.simps)
  have 1: "machine_ok ?m1" by (rule machine_ok_store [OF Write.prems(1) f(1,2)])
  have 2: "self < next_pid (store ?m1)" using grows_pid [OF f(1) Write.prems(2)] by simp
  from Write.IH [OF 1 2] f(3) have "machine_ok (exec k h self ?m1)"
    "grows (f (store m)) (store (exec k h self ?m1))" by simp_all
  with f(1) show ?case by (auto intro: grows_trans)
next
  case (Async c k)
  let ?s = "store m"
  let ?q = "next_pid ?s"
  let ?s1 = "new_promise (Called c) ?s"
  let ?m1 = "m\<lparr>store := ?s1\<rparr>"
  let ?m2 = "h c ?q ?m1"
  have wf: "wf_store ?s" using Async.prems(1) by (simp add: machine_ok_def)
  from Async.prems(3) have c: "call_ok c ?s"
    and k: "\<And>s'. grows ?s1 s' \<Longrightarrow> wf_store s' \<Longrightarrow> post c ?s s' \<Longrightarrow> ok (k ?q) self s'"
    by (simp_all add: ok.simps)
  have 1: "machine_ok ?m1"
    by (rule machine_ok_store [OF Async.prems(1) new_promise_ext new_promise_inv [OF wf]])
  have t: "task (store ?m1) ?q c"
    using c new_promise_inv [OF wf, of "Called c"]
    by (auto simp: task_def new_promise_def call_ok_def split: option.splits)
  have "machine_ok ?m1 \<and> task (store ?m1) ?q c" using 1 t by simp
  from h [unfolded handler_ok_def, rule_format, OF this]
  have 2: "machine_ok ?m2" "grows ?s1 (store ?m2)" "post c ?s1 (store ?m2)"
    by simp_all
  have p: "post c ?s (store ?m2)" using 2(3) by (simp add: post_def new_promise_def)
  have wf2: "wf_store (store ?m2)" using 2(1) by (simp add: machine_ok_def)
  have g02: "grows ?s (store ?m2)" using new_promise_ext 2(2) by (rule grows_trans)
  have 3: "self < next_pid (store ?m2)" using grows_pid [OF g02 Async.prems(2)] .
  from Async.IH [OF rangeI 2(1) 3 k [OF 2(2) wf2 p]]
  have "machine_ok (exec (k ?q) h self ?m2)" "grows (store ?m2) (store (exec (k ?q) h self ?m2))"
    by simp_all
  with g02 show ?case by (auto intro: grows_trans)
next
  case (External r k)
  let ?s = "store m"
  let ?s1 = "new_promise (Outside r) ?s"
  let ?m1 = "m\<lparr>store := ?s1\<rparr>"
  have wf: "wf_store ?s" using External.prems(1) by (simp add: machine_ok_def)
  have 1: "machine_ok ?m1"
    by (rule machine_ok_store [OF External.prems(1) new_promise_ext new_promise_inv [OF wf]])
  have 2: "self < next_pid (store ?m1)"
    using grows_pid [OF new_promise_ext External.prems(2)] by simp
  from External.IH [OF rangeI 1 2] External.prems(3)
  have "machine_ok (exec (k (next_pid ?s)) h self ?m1)"
    "grows ?s1 (store (exec (k (next_pid ?s)) h self ?m1))" by (simp_all add: ok.simps)
  then show ?case using new_promise_ext [of ?s "Outside r"] by (auto intro: grows_trans)
next
  case (PromiseResolve v k)
  let ?s = "store m"
  let ?s1 = "new_settled_promise (Fulfilled v) ?s"
  let ?m1 = "m\<lparr>store := ?s1\<rparr>"
  have wf: "wf_store ?s" using PromiseResolve.prems(1) by (simp add: machine_ok_def)
  have g: "grows ?s ?s1" by (rule new_settled_promise_ext [OF wf])
  have 1: "machine_ok ?m1"
    by (rule machine_ok_store [OF PromiseResolve.prems(1) g new_settled_promise_inv [OF wf]])
  have 2: "self < next_pid (store ?m1)" using grows_pid [OF g PromiseResolve.prems(2)] by simp
  from PromiseResolve.IH [OF rangeI 1 2] PromiseResolve.prems(3)
  have "machine_ok (exec (k (next_pid ?s)) h self ?m1)"
    "grows ?s1 (store (exec (k (next_pid ?s)) h self ?m1))" by (simp_all add: ok.simps)
  then show ?case using g by (auto intro: grows_trans)
next
  case (PromiseAll ps k)
  let ?s = "store m"
  let ?m1 = "promise_all ps m"
  have wf: "wf_store ?s" using PromiseAll.prems(1) by (simp add: machine_ok_def)
  have b: "p < next_pid ?s" if "p \<in> set ps" for p
    using PromiseAll.prems(3) that by (simp add: ok.simps)
  from promise_all_ok [OF PromiseAll.prems(1) b]
  have 1: "machine_ok ?m1" "store ?m1 = new_all_promise ps ?s" by simp_all
  have g: "grows ?s (store ?m1)" using new_all_promise_ext [OF wf] 1(2) by simp
  have 2: "self < next_pid (store ?m1)" using grows_pid [OF g PromiseAll.prems(2)] .
  from PromiseAll.IH [OF rangeI 1(1) 2] PromiseAll.prems(3) 1(2)
  have "machine_ok (exec (k (next_pid ?s)) h self ?m1)"
    "grows (store ?m1) (store (exec (k (next_pid ?s)) h self ?m1))" by (simp_all add: ok.simps)
  then show ?case using g by (auto intro: grows_trans)
next
  case (Then p f k)
  have r: "reaction_ok p (Callback f) (store m)"
    using Then.prems(3) by (simp add: reaction_ok_def ok.simps)
  from subscribe_ok [OF Then.prems(1) r]
  have 1: "machine_ok (subscribe p (Callback f) m)" "store (subscribe p (Callback f) m) = store m"
    by simp_all
  from Then.IH [OF 1(1)] Then.prems(2,3) 1(2) show ?case by (simp add: ok.simps)
qed

lemma arrow_contexts:
  "is_arrow c \<Longrightarrow> contexts (store (exec (body w fuel c) h q m)) = contexts (store m)"
  by (cases c)
     (simp_all add: analyze_async_def scan_async_def parse_async_def await_value_def
      subscribe_def new_settled_promise_def)

lemma run_call_ok: "handler_ok (run_call w fuel n)"
proof (induction n)
  case 0
  show ?case
    unfolding handler_ok_def
  proof (intro allI impI, elim conjE)
    fix c q m
    assume ok: "machine_ok m" and t: "task (store m) q c"
    have c: "same_core (store m) ((store m)\<lparr>fuel_exhausted := True\<rparr>)"
      by (rule same_core_simps)
    have "machine_ok (m\<lparr>store := (store m)\<lparr>fuel_exhausted := True\<rparr>\<rparr>)"
      by (rule machine_ok_store [OF ok same_core_grows [OF c]])
         (use ok same_core_wf [OF c] in \<open>simp add: machine_ok_def\<close>)
    then show "machine_ok (run_call w fuel 0 c q m) \<and>
          grows (store m) (store (run_call w fuel 0 c q m)) \<and>
          post c (store m) (store (run_call w fuel 0 c q m))"
      using same_core_grows [OF c] by (simp add: post_def)
  qed
next
  case (Suc n)
  show ?case
    unfolding handler_ok_def
  proof (intro allI impI, elim conjE)
    fix c q m
    assume ok: "machine_ok m" and t: "task (store m) q c"
    have q: "q < next_pid (store m)" using t by (simp add: task_def)
    from exec_ok [OF Suc ok q bodies_ok [OF t], of w fuel]
    show "machine_ok (run_call w fuel (Suc n) c q m) \<and>
          grows (store m) (store (run_call w fuel (Suc n) c q m)) \<and>
          post c (store m) (store (run_call w fuel (Suc n) c q m))"
      by (simp add: post_def arrow_contexts)
  qed
qed

lemma run_reaction_ok:
  assumes ok: "machine_ok m" and j: "job_ok (Reaction x r) (store m)"
  shows "machine_ok (run_reaction w fuel x r m) \<and>
         grows (store m) (store (run_reaction w fuel x r m))"
proof (cases x)
  case (Resume k self)
  have wf: "wf_store (store m)" using ok by (simp add: machine_ok_def)
  from j Resume have "self < next_pid (store m)" "ok (k r) self (store m)"
    using grows_refl wf by (auto simp: job_ok_def)
  from exec_ok [OF run_call_ok ok this] Resume show ?thesis by (simp add: run_reaction_def)
next
  case (Adopt q)
  with j have "q < next_pid (store m)" "typed (store m) q r" by (simp_all add: job_ok_def)
  from settle_ok [OF ok this] Adopt show ?thesis by (simp add: run_reaction_def)
next
  case (AllElement q)
  with j have q: "q < next_pid (store m)" "origin (store m) q = None"
    by (simp_all add: job_ok_def)
  then have t: "typed (store m) q r'" for r' by (simp add: typed_def)
  have 1: "machine_ok (m\<lparr>all_remaining := a\<rparr>)" for a
    using ok by (simp add: machine_ok_def)
  show ?thesis
  proof (cases r)
    case (Rejected e)
    with settle_ok [OF ok q(1) t] AllElement show ?thesis by (simp add: run_reaction_def)
  next
    case (Fulfilled v)
    show ?thesis
    proof (cases "all_remaining m q \<le> 1")
      case True
      from settle_ok [OF 1, of q "(all_remaining m)(q := 0)" "Fulfilled Undefined"] q t
      show ?thesis using AllElement Fulfilled True by (simp add: run_reaction_def)
    next
      case False
      with 1 AllElement Fulfilled show ?thesis by (simp add: run_reaction_def grows_refl)
    qed
  qed
next
  case (Callback f)
  have wf: "wf_store (store m)" using ok by (simp add: machine_ok_def)
  show ?thesis
  proof (cases r)
    case (Rejected e)
    with Callback ok show ?thesis by (simp add: run_reaction_def grows_refl)
  next
    case (Fulfilled v)
    from j Callback have "grows (store m) (f v (store m)) \<and> wf_store (f v (store m))"
      using grows_refl wf by (auto simp: job_ok_def)
    with machine_ok_store [OF ok] Callback Fulfilled show ?thesis
      by (simp add: run_reaction_def)
  qed
qed

lemma run_job_ok:
  assumes ok: "machine_ok m" and j: "job_ok j (store m)"
  shows "machine_ok (run_job w fuel j m) \<and> grows (store m) (store (run_job w fuel j m))"
proof (cases j)
  case (Reaction x r)
  with run_reaction_ok [OF ok] j show ?thesis by (simp add: run_job_def)
next
  case (ResolveThenable q p)
  with j have "reaction_ok p (Adopt q) (store m)" by (simp add: job_ok_def reaction_ok_def)
  from subscribe_ok [OF ok this] ResolveThenable show ?thesis
    by (simp add: run_job_def grows_refl)
qed

lemma invoke_ok:
  assumes ok: "machine_ok m" and c: "this_of c = None" "vid_of c = None"
  shows "machine_ok (invoke w fuel c m) \<and> grows (store m) (store (invoke w fuel c m))"
proof -
  let ?s = "store m"
  let ?s1 = "new_promise (Called c) ?s"
  let ?m1 = "m\<lparr>store := ?s1\<rparr>"
  have wf: "wf_store ?s" using ok by (simp add: machine_ok_def)
  have 1: "machine_ok ?m1"
    by (rule machine_ok_store [OF ok new_promise_ext new_promise_inv [OF wf]])
  have t: "task (store ?m1) (next_pid ?s) c"
    using c new_promise_inv [OF wf, of "Called c"]
    by (auto simp: task_def new_promise_def call_ok_def)
  have "machine_ok ?m1 \<and> task (store ?m1) (next_pid ?s) c" using 1 t by simp
  from run_call_ok [unfolded handler_ok_def, rule_format, OF this, of w fuel fuel]
  show ?thesis
    using new_promise_ext [of ?s "Called c"] by (auto simp: invoke_def intro: grows_trans)
qed

theorem step_ok:
  assumes ok: "machine_ok m"
  shows "machine_ok (step w fuel e m) \<and> grows (store m) (store (step w fuel e m))"
proof (cases e)
  case Tick
  show ?thesis
  proof (cases "microtasks m")
    case Nil
    with Tick ok show ?thesis by (simp add: step_def grows_refl)
  next
    case (Cons j js)
    have 1: "machine_ok (m\<lparr>microtasks := js\<rparr>)" using ok Cons by (simp add: machine_ok_def)
    have 2: "job_ok j (store (m\<lparr>microtasks := js\<rparr>))" using ok Cons by (simp add: machine_ok_def)
    from run_job_ok [OF 1 2] Tick Cons show ?thesis by (simp add: step_def)
  qed
next
  case (Complete p)
  have wf: "wf_store (store m)" using ok by (simp add: machine_ok_def)
  show ?thesis
  proof (cases "origin (store m) p")
    case None
    with Complete ok show ?thesis by (simp add: step_def grows_refl)
  next
    case (Some src)
    show ?thesis
    proof (cases src)
      case (Called c)
      with Some Complete ok show ?thesis by (simp add: step_def grows_refl)
    next
      case (Outside r)
      have p: "p < next_pid (store m)"
        using wf Some unfolding wf_store_def wf_core_def by (metis not_le option.distinct(1))
      have t: "typed (store m) p r" using Some Outside by (simp add: typed_def)
      from settle_ok [OF ok p t] Some Outside Complete show ?thesis by (simp add: step_def)
    qed
  qed
next
  case (Call_analyze u c)
  with invoke_ok [OF ok, of "Analyzer_analyze u c"] show ?thesis by (simp add: step_def)
next
  case (Call_load u c)
  with invoke_ok [OF ok, of "Analyzer_load u c"] show ?thesis by (simp add: step_def)
next
  case Call_clearCaches
  have wf: "wf_store (store m)" using ok by (simp add: machine_ok_def)
  from new_context_ok [OF wf, of "clearCaches (the_context (store m) (analyzer (store m)))"]
  have "grows (store m) ((store m)\<lparr>contexts := (contexts (store m))(next_cid (store m) \<mapsto>
            clearCaches (the_context (store m) (analyzer (store m)))),
          analyzer := next_cid (store m), next_cid := next_cid (store m) + 1\<rparr>) \<and>
        wf_store ((store m)\<lparr>contexts := (contexts (store m))(next_cid (store m) \<mapsto>
            clearCaches (the_context (store m) (analyzer (store m)))),
          analyzer := next_cid (store m), next_cid := next_cid (store m) + 1\<rparr>)"
    by (simp add: clearCaches_def fork_def new_AnalysisCache_def cached_promises_def)
  with machine_ok_store [OF ok] Call_clearCaches show ?thesis by (simp add: step_def)
qed

theorem run_ok:
  "machine_ok m \<Longrightarrow>
   machine_ok (run w fuel es m) \<and> grows (store m) (store (run w fuel es m))"
proof (induction es arbitrary: m)
  case Nil
  then show ?case by (simp add: run_def grows_refl)
next
  case (Cons e es)
  from step_ok [OF Cons.prems, of w fuel e]
  have 1: "machine_ok (step w fuel e m)" "grows (store m) (store (step w fuel e m))" by simp_all
  from Cons.IH [OF 1(1)] 1(2) show ?case by (auto simp: run_def intro: grows_trans)
qed

lemma new_Analyzer_ok: "machine_ok (new_Analyzer opts)"
  by (simp add: machine_ok_def new_Analyzer_def wf_store_def wf_core_def wf_cached_def
      cached_promises_def typed_def scan_promise_def docs_for_def new_AnalyzerCacheContext_def
      new_AnalysisCache_def)

section \<open>The sentinel of \<^verbatim>\<open>_scan\<close>\<close>

lemma reachable_ok: "machine_ok (run w fuel es (new_Analyzer opts))"
  using run_ok [OF new_Analyzer_ok] by blast

lemma reachable_wf: "wf_store (store (run w fuel es (new_Analyzer opts)))"
  using reachable_ok by (simp add: machine_ok_def)

lemma reachable_typed:
  "settled (store (run w fuel es (new_Analyzer opts))) p = Some r \<Longrightarrow>
   typed (store (run w fuel es (new_Analyzer opts))) p r"
  using reachable_wf [of w fuel es opts] unfolding wf_store_def wf_core_def by blast

lemma reachable_value:
  assumes "origin (store (run w fuel es (new_Analyzer opts))) p = Some (Called c)"
    and "settled (store (run w fuel es (new_Analyzer opts))) p = Some (Fulfilled v)"
  shows "value_ok c (store (run w fuel es (new_Analyzer opts))) v"
  using reachable_typed [OF assms(2)] assms(1) by (simp add: typed_def)

lemma run_append: "run w fuel (es @ es') m = run w fuel es' (run w fuel es m)"
  by (simp add: run_def)

lemma reachable_grows:
  "grows (store (run w fuel es (new_Analyzer opts)))
         (store (run w fuel (es @ es') (new_Analyzer opts)))"
  unfolding run_append using run_ok [OF reachable_ok] by blast

text \<open>
  Claim C10: a top-level call of \<^verbatim>\<open>_scan\<close>, made without a visited set as \<^verbatim>\<open>analyze\<close> makes
  it, never returns the sentinel \<^verbatim>\<open>'visited'\<close>. In every state that the analyzer reaches
  from its construction, by any sequence of calls, microtask steps and completions of
  loads and scans, a call of \<^verbatim>\<open>_scan\<close> whose promise is fulfilled with \<^verbatim>\<open>'visited'\<close> was given
  a visited set, and its resolved URL is a member of that set. So a call without a
  visited set is never fulfilled with the sentinel, and the function with which
  \<^verbatim>\<open>analyze\<close> continues on the result of its \<^verbatim>\<open>_scan\<close> (\<^const>\<open>analyze_resume\<close>, line 230)
  does not take the branch that throws the zero-length-cycle error.
\<close>

theorem scan_visited_only_from_visited_set:
  assumes "m = run w fuel es (new_Analyzer opts)"
    and "origin (store m) p = Some (Called (Scan this u c visited))"
    and "settled (store m) p = Some (Fulfilled v)"
  shows "(v = Visited \<longrightarrow> (\<exists>vs. visited = Some vs \<and> u \<in> set (the_visited (store m) vs))) \<and>
         (visited = None \<longrightarrow>
            v \<noteq> Visited \<and> analyze_resume w' fuel' this' u' v \<noteq> Throw (zero_cycle_error u'))"
proof -
  from reachable_value [OF assms(2,3) [unfolded assms(1)]]
  have "value_ok (Scan this u c visited) (store m) v" by (simp add: assms(1))
  then have a: "v = Visited \<longrightarrow> in_visited (store m) visited u" by auto
  then have 1: "v = Visited \<longrightarrow> (\<exists>vs. visited = Some vs \<and> u \<in> set (the_visited (store m) vs))"
    by (auto simp: in_visited_def split: option.splits)
  have 2: "v \<noteq> Visited" if "visited = None" using a that by (auto simp: in_visited_def)
  have 3: "analyze_resume w' fuel' this' u' v \<noteq> Throw (zero_cycle_error u')" if "v \<noteq> Visited"
    using that by (simp add: analyze_resume_def)
  from 1 2 3 show ?thesis by blast
qed

lemma example_scans:
  "let m = example_run trace_a in
     origin (store m) 4 = Some (Called (Scan 0 ''a.html'' None None)) \<and>
     settled (store m) 4 = Some (Fulfilled (Scanned 0)) \<and>
     origin (store m) 24 = Some (Called (Scan 0 ''b.html'' None (Some 0))) \<and>
     settled (store m) 24 = Some (Fulfilled Visited)"
  by code_simp

theorem scan_visited_only_from_visited_set_witness:
  "origin (store (example_run trace_a)) 4 = Some (Called (Scan 0 ''a.html'' None None)) \<and>
   settled (store (example_run trace_a)) 4 = Some (Fulfilled (Scanned 0)) \<and>
   analyze_resume example_world 10 0 ''a.html'' (Scanned 0) \<noteq> Throw (zero_cycle_error ''a.html'') \<and>
   origin (store (example_run trace_a)) 24 = Some (Called (Scan 0 ''b.html'' None (Some 0))) \<and>
   settled (store (example_run trace_a)) 24 = Some (Fulfilled Visited) \<and>
   ''b.html'' \<in> set (the_visited (store (example_run trace_a)) 0)"
  using example_scans
    scan_visited_only_from_visited_set [OF example_run_def, of trace_a 4 0 "''a.html''" None None
      "Scanned 0" example_world 10 0 "''a.html''"]
    scan_visited_only_from_visited_set [OF example_run_def, of trace_a 24 0 "''b.html''" None
      "Some 0" Visited]
  by (simp add: Let_def)

section \<open>Memoisation of \<^verbatim>\<open>analyze\<close>\<close>







lemma reachable_context:
  assumes "m = run w fuel es (new_Analyzer opts)" "this < next_cid (store m)"
  shows "contexts (store m) this = Some (the_context (store m) this)"
proof -
  have "wf_store (store m)" unfolding assms(1) by (rule reachable_wf)
  from context_defined [OF this assms(2)] show ?thesis by (auto simp: the_context_def)
qed


section \<open>One document per URL\<close>

lemma scanDocument_duplicate:
  assumes "has (scannedDocuments (the_cache (store m) this)) (pd_url doc)" "\<not> pd_isInline doc"
    "settled (store m) self = None"
  shows "exec (scanDocument_resume this doc ac (Features fs)) h self m =
    settle self (Rejected already_in_cache)
      (m\<lparr>store := new_ScannedDocument
          \<lparr>document = doc,
           features = (case fs of [] \<Rightarrow> []
                       | firstScannedFeature # rest \<Rightarrow>
                           if is_ScannedElement firstScannedFeature
                           then applyHtmlComment firstScannedFeature ac # rest else fs),
           warnings = []\<rparr> (store m)\<rparr>)"
  using assms
  by (simp add: scanDocument_resume_def Let_def isInline_def sd_url_def new_ScannedDocument_def
      the_cache_def the_context_def)

lemma makeDocument_duplicate:
  assumes "has (analyzedDocuments (the_cache s this)) (sd_url (the_sdoc s d))"
  shows "makeDocument (Suc n) w this d s = (Inl (already_exists (sd_url (the_sdoc s d))), s)"
  using assms by (simp add: Let_def)

lemma documents_entry_grows:
  assumes "grows s s'" "contexts s this = Some ctx"
  shows "(map_of (scannedDocuments (c_cache ctx)) u = Some d \<longrightarrow>
            map_of (scannedDocuments (the_cache s' this)) u = Some d) \<and>
         (map_of (analyzedDocuments (c_cache ctx)) u = Some a \<longrightarrow>
            map_of (analyzedDocuments (the_cache s' this)) u = Some a)"
proof -
  from assms obtain c' where c': "contexts s' this = Some c'"
    "cache_le (c_cache ctx) (c_cache c')"
    unfolding grows_def by blast
  then show ?thesis by (simp add: the_cache_def the_context_def cache_le_def entries_le_def)
qed

text \<open>
  Claim C6: at most one \<^verbatim>\<open>ScannedDocument\<close> and one \<^verbatim>\<open>Document\<close> exist per context and URL,
  and a second insertion throws. In every state \<open>m\<close> that the analyzer reaches, with
  \<open>ctx\<close> the context \<open>this\<close>:
  \<^item> at most one \<^verbatim>\<open>Document\<close> has been constructed for \<open>this\<close> and \<open>u\<close>;
  \<^item> an entry of \<^verbatim>\<open>scannedDocuments\<close> or of \<^verbatim>\<open>analyzedDocuments\<close> is the same in every
    later state: it is never overwritten;
  \<^item> when \<^verbatim>\<open>scannedDocuments\<close> has an entry for the URL of a non-inline document,
    \<^verbatim>\<open>_scanDocument\<close>, continuing with the scanned features, rejects its promise with
    the error of line 401 and leaves the caches of all contexts as they are;
  \<^item> when \<^verbatim>\<open>analyzedDocuments\<close> has an entry for the URL of a scanned document,
    \<^verbatim>\<open>_makeDocument\<close> throws the error of line 255 and changes nothing.
\<close>

theorem one_document_per_url:
  assumes m: "m = run w fuel es (new_Analyzer opts)"
    and ctx: "contexts (store m) this = Some ctx"
  shows
    "length (docs_for (store m) this u) \<le> 1 \<and>
     (\<forall>es'. (map_of (scannedDocuments (c_cache ctx)) u = Some d \<longrightarrow>
               map_of (scannedDocuments (the_cache (store (run w fuel es' m)) this)) u = Some d) \<and>
            (map_of (analyzedDocuments (c_cache ctx)) u = Some a \<longrightarrow>
               map_of (analyzedDocuments (the_cache (store (run w fuel es' m)) this)) u = Some a)) \<and>
     (has (scannedDocuments (c_cache ctx)) (pd_url doc) \<and> \<not> pd_isInline doc \<and>
      settled (store m) self = None \<longrightarrow>
        (let m' = exec (scanDocument_resume this doc comment (Features fs)) h self m
         in settled (store m') self = Some (Rejected already_in_cache) \<and>
            contexts (store m') = contexts (store m))) \<and>
     (has (analyzedDocuments (c_cache ctx)) (sd_url (the_sdoc (store m) sd)) \<longrightarrow>
        makeDocument (Suc n) w this sd (store m) =
          (Inl (already_exists (sd_url (the_sdoc (store m) sd))), store m))"
proof -
  have wf: "wf_store (store m)" unfolding m by (rule reachable_wf)
  have tc: "the_cache (store m) this = c_cache ctx"
    using ctx by (simp add: the_cache_def the_context_def)
  have 1: "length (docs_for (store m) this u) \<le> 1"
    using wf unfolding wf_store_def wf_core_def by blast
  have 2: "(map_of (scannedDocuments (c_cache ctx)) u = Some d \<longrightarrow>
               map_of (scannedDocuments (the_cache (store (run w fuel es' m)) this)) u = Some d) \<and>
            (map_of (analyzedDocuments (c_cache ctx)) u = Some a \<longrightarrow>
               map_of (analyzedDocuments (the_cache (store (run w fuel es' m)) this)) u = Some a)"
    for es'
  proof -
    have g: "grows (store m) (store (run w fuel es' m))"
      using run_ok [OF reachable_ok, of w fuel es' w fuel es opts] by (simp add: m)
    from documents_entry_grows [OF g ctx] show ?thesis .
  qed
  have 3: "(let m' = exec (scanDocument_resume this doc comment (Features fs)) h self m
         in settled (store m') self = Some (Rejected already_in_cache) \<and>
            contexts (store m') = contexts (store m))"
    if "has (scannedDocuments (c_cache ctx)) (pd_url doc)" "\<not> pd_isInline doc"
      "settled (store m) self = None"
    using that
    by (simp add: scanDocument_duplicate tc Let_def settle_def settle_promise_def
        new_ScannedDocument_def)
  have 4: "makeDocument (Suc n) w this sd (store m) =
          (Inl (already_exists (sd_url (the_sdoc (store m) sd))), store m)"
    if "has (analyzedDocuments (c_cache ctx)) (sd_url (the_sdoc (store m) sd))"
    by (rule makeDocument_duplicate) (use that in \<open>simp add: tc\<close>)
  show ?thesis using 1 2 3 4 by blast
qed

lemma example_documents:
  "let m = example_run trace_a in
     next_cid (store m) = 1 \<and>
     map_of (scannedDocuments (the_cache (store m) 0)) ''a.html'' = Some 0 \<and>
     map_of (analyzedDocuments (the_cache (store m) 0)) ''a.html'' = Some 0 \<and>
     settled (store m) 39 = None \<and>
     sd_url (the_sdoc (store m) 0) = ''a.html'' \<and>
     docs_for (store m) 0 ''a.html'' = [\<lparr>doc_base = 0, doc_analyzer = 0, doc_url = ''a.html''\<rparr>]"
  by code_simp

theorem one_document_per_url_witness:
  "map_of (scannedDocuments (the_cache (store (example_run trace_a)) 0)) ''a.html'' = Some 0 \<and>
   map_of (analyzedDocuments (the_cache (store (example_run trace_a)) 0)) ''a.html'' = Some 0 \<and>
   length (docs_for (store (example_run trace_a)) 0 ''a.html'') = 1 \<and>
   map_of (scannedDocuments (the_cache (store
       (run example_world 10 [Call_analyze ''a.html'' None] (example_run trace_a))) 0)) ''a.html''
     = Some 0 \<and>
   map_of (analyzedDocuments (the_cache (store
       (run example_world 10 [Call_analyze ''a.html'' None] (example_run trace_a))) 0)) ''a.html''
     = Some 0 \<and>
   settled (store (example_run trace_a)) 39 = None \<and>
   settled (store (exec (scanDocument_resume 0 a_html None (Features []))
       (run_call example_world 10 10) 39 (example_run trace_a))) 39
     = Some (Rejected already_in_cache) \<and>
   makeDocument 10 example_world 0 0 (store (example_run trace_a)) =
     (Inl (already_exists ''a.html''), store (example_run trace_a))"
proof -
  note obs = example_documents [unfolded Let_def]
  have c: "contexts (store (example_run trace_a)) 0 =
             Some (the_context (store (example_run trace_a)) 0)"
    by (rule reachable_context [OF example_run_def]) (simp add: obs)
  have tc: "c_cache (the_context (store (example_run trace_a)) 0) =
              the_cache (store (example_run trace_a)) 0"
    by (simp add: the_cache_def)
  note t = one_document_per_url [where this = 0 and u = "''a.html''" and d = 0 and a = 0
      and doc = a_html and self = 39 and comment = None and fs = "[]"
      and h = "run_call example_world 10 10" and sd = 0 and n = 9,
      OF example_run_def c, unfolded tc]
  from t obs have 1: "map_of (scannedDocuments (the_cache (store
       (run example_world 10 [Call_analyze ''a.html'' None] (example_run trace_a))) 0)) ''a.html''
     = Some 0 \<and>
   map_of (analyzedDocuments (the_cache (store
       (run example_world 10 [Call_analyze ''a.html'' None] (example_run trace_a))) 0)) ''a.html''
     = Some 0"
    by blast
  from t obs have 2: "settled (store (exec (scanDocument_resume 0 a_html None (Features []))
       (run_call example_world 10 10) 39 (example_run trace_a))) 39
     = Some (Rejected already_in_cache)"
    by (simp add: has_def a_html_def Let_def)
  from t obs have 3: "makeDocument 10 example_world 0 0 (store (example_run trace_a)) =
     (Inl (already_exists ''a.html''), store (example_run trace_a))"
    by (simp add: has_def)
  from 1 2 3 obs show ?thesis by simp
qed

section \<open>Failures of imports\<close>

lemma settled_settle:
  "settled (store m) self = None \<Longrightarrow> settled (store (settle self r m)) self = Some r"
  by (simp add: settle_def settle_promise_def)

lemma sdocs_settle: "sdocs (store (settle self r m)) = sdocs (store m)"
  by (simp add: settle_def settle_promise_def split: option.splits)

lemma the_sdoc_settle: "the_sdoc (store (settle self r m)) = the_sdoc (store m)"
  by (rule ext) (simp add: the_sdoc_def sdocs_settle)

lemma exec_scanImport_rejected:
  "exec (scanImport_resume this owner i ws u (Rejected e)) h self m =
     settle self (Fulfilled Null)
       (if is_NoKnownParserError e then m
        else m\<lparr>store := push_warning ws (could_not_load (the_feature (store m) owner i) e) (store m)\<rparr>)"
  by (simp add: scanImport_resume_def)

text \<open>
  Claim C3: how \<^verbatim>\<open>_scanImport\<close> handles a failed scan of the imported URL. When the
  promise of the nested \<^verbatim>\<open>_scan\<close> is rejected with \<open>e\<close>, \<^verbatim>\<open>_scanImport\<close>, for an import
  feature \<open>i\<close> of the document \<open>owner\<close> and the warnings of the document \<open>ws\<close>, fulfils its
  own promise with \<^verbatim>\<open>null\<close>; if \<open>e\<close> is a \<^verbatim>\<open>NoKnownParserError\<close> no scanned document is
  changed, so no warning is added; otherwise exactly one warning is appended to the
  warnings of \<open>ws\<close>, with code \<^verbatim>\<open>could-not-load\<close>, severity \<^verbatim>\<open>ERROR\<close>, the message of
  line 520 and, as source range, the \<^verbatim>\<open>urlSourceRange\<close> of the import when it has
  one and its \<^verbatim>\<open>sourceRange\<close> otherwise; every other scanned document is unchanged.
\<close>

theorem scanImport_failure_handling:
  assumes "settled (store m) self = None"
    and "the_feature (store m) owner i = ScannedImport t u0 usr sr d"
  shows
    "settled (store (exec (scanImport_resume this owner i ws u (Rejected e)) h self m)) self
       = Some (Fulfilled Null) \<and>
     (is_NoKnownParserError e \<longrightarrow>
        sdocs (store (exec (scanImport_resume this owner i ws u (Rejected e)) h self m))
          = sdocs (store m)) \<and>
     (\<not> is_NoKnownParserError e \<longrightarrow>
        warnings (the_sdoc (store (exec (scanImport_resume this owner i ws u (Rejected e)) h self m)) ws)
          = warnings (the_sdoc (store m) ws) @
            [\<lparr>code = ''could-not-load'',
              message = ''Unable to load import: '' @ thrown_text e,
              sourceRange = (case usr of Some r \<Rightarrow> Some r | None \<Rightarrow> sr),
              severity = ERROR\<rparr>] \<and>
        (\<forall>x. x \<noteq> ws \<longrightarrow>
           sdocs (store (exec (scanImport_resume this owner i ws u (Rejected e)) h self m)) x
             = sdocs (store m) x))"
proof -
  have sr: "import_source_range (ScannedImport t u0 usr sr d) = (case usr of Some r \<Rightarrow> Some r | None \<Rightarrow> sr)"
    by (cases usr) simp_all
  show ?thesis
    using assms
    by (simp add: exec_scanImport_rejected settled_settle sdocs_settle the_sdoc_settle
        push_warning_def could_not_load_def sr the_sdoc_def)
qed

lemma example_failed_import:
  "let m = example_run trace_p_failed in
     settled (store m) 18 = None \<and>
     origin (store m) 18 = Some (Called (ScanImport 0 0 0 0 0)) \<and>
     settled (store m) 19 = Some (Rejected (Error ''not found'')) \<and>
     the_feature (store m) 0 0 = ScannedImport ''html-import'' ''missing.html'' (Some href) None None \<and>
     warnings (the_sdoc (store m) 0) = []"
  by code_simp

lemma example_failed_import_end:
  "let m = example_run trace_p in
     settled (store m) 0 = Some (Fulfilled (Document 0)) \<and>
     warnings (the_sdoc (store m) 0) =
       [\<lparr>code = ''could-not-load'', message = ''Unable to load import: not found'',
         sourceRange = Some href, severity = ERROR\<rparr>] \<and>
     microtasks m = [] \<and> \<not> fuel_exhausted (store m)"
  by code_simp

theorem scanImport_failure_handling_witness:
  "settled (store (example_run trace_p_failed)) 18 = None \<and>
   the_feature (store (example_run trace_p_failed)) 0 0 =
     ScannedImport ''html-import'' ''missing.html'' (Some href) None None \<and>
   settled (store (exec (scanImport_resume 0 0 0 0 ''missing.html'' (Rejected (Error ''not found'')))
      (run_call example_world 10 10) 18 (example_run trace_p_failed))) 18 = Some (Fulfilled Null) \<and>
   warnings (the_sdoc (store (exec
      (scanImport_resume 0 0 0 0 ''missing.html'' (Rejected (Error ''not found'')))
      (run_call example_world 10 10) 18 (example_run trace_p_failed))) 0) =
     [\<lparr>code = ''could-not-load'', message = ''Unable to load import: not found'',
       sourceRange = Some href, severity = ERROR\<rparr>] \<and>
   sdocs (store (exec
      (scanImport_resume 0 0 0 0 ''x.foo'' (Rejected (NoKnownParserError ''No parser'')))
      (run_call example_world 10 10) 18 (example_run trace_p_failed))) =
     sdocs (store (example_run trace_p_failed)) \<and>
   settled (store (example_run trace_p)) 0 = Some (Fulfilled (Document 0)) \<and>
   warnings (the_sdoc (store (example_run trace_p)) 0) =
     [\<lparr>code = ''could-not-load'', message = ''Unable to load import: not found'',
       sourceRange = Some href, severity = ERROR\<rparr>]"
proof -
  note obs = example_failed_import [unfolded Let_def]
  note fin = example_failed_import_end [unfolded Let_def]
  from obs have h: "settled (store (example_run trace_p_failed)) 18 = None"
    "the_feature (store (example_run trace_p_failed)) 0 0 =
       ScannedImport ''html-import'' ''missing.html'' (Some href) None None"
    by simp_all
  from scanImport_failure_handling [OF h, where this = 0 and ws = 0 and u = "''missing.html''"
      and e = "Error ''not found''" and h = "run_call example_world 10 10"]
    scanImport_failure_handling [OF h, where this = 0 and ws = 0 and u = "''x.foo''"
      and e = "NoKnownParserError ''No parser''" and h = "run_call example_world 10 10"]
    obs fin
  show ?thesis by simp
qed

section \<open>Assignment of the scanned document of an import\<close>

lemma reachable_cached:
  assumes "m = run w fuel es (new_Analyzer opts)"
    and "origin (store m) q = Some (Called (Scan this u c vo))"
    and "settled (store m) q = Some (Fulfilled (Scanned d))"
  shows "\<exists>sp. map_of (scannedDocumentPromises (the_cache (store m) this)) u = Some sp \<and>
              settled (store m) sp = Some (Fulfilled (Scanned d))"
proof -
  from reachable_value [OF assms(2,3) [unfolded assms(1)]]
  have "cached (store m) this u (Scanned d)" by (simp add: assms(1))
  then show ?thesis unfolding cached_def by (auto simp: the_cache_def the_context_def)
qed

lemma slot_value_assign:
  assumes "the_feature s owner i = ScannedImport t u0 usr sr slot"
  shows "slot_value (the_feature (assign_scannedDocument owner i d s) owner i) = Some d"
proof -
  have "i < length (features (the_sdoc s owner))"
    using assms by (auto simp: the_feature_def split: if_splits)
  then show ?thesis
    using assms by (simp add: assign_scannedDocument_def the_feature_def the_sdoc_def)
qed

lemma the_feature_settle_promise:
  "the_feature (settle_promise q r s) owner i = the_feature s owner i"
  by (simp add: the_feature_def the_sdoc_def settle_promise_def)

lemma exec_scanImport_fulfilled:
  assumes "map_of (scannedDocumentPromises (the_cache (store m) this)) u = Some sp"
  shows "exec (scanImport_resume this owner i ws u (Fulfilled v)) h self m =
           settle self (Fulfilled Null) (subscribe sp (Callback (assign_callback owner i)) m)"
  using assms by (simp add: scanImport_resume_def)

text \<open>
  Claim C8, as amended: when the nested \<^verbatim>\<open>_scan\<close> of a non-lazy import has succeeded,
  \<^verbatim>\<open>_scanImport\<close> assigns nothing itself: it registers the assignment as a callback on
  the promise cached for the URL in \<^verbatim>\<open>scannedDocumentPromises\<close> and fulfils its own
  promise with \<^verbatim>\<open>null\<close>. In every state \<open>m\<close> that the analyzer reaches, with \<open>self\<close> the
  pending promise of \<^verbatim>\<open>_scanImport\<close> for the import feature \<open>i\<close> of \<open>owner\<close> and \<open>sp\<close> the
  promise cached for the resolved URL \<open>u\<close>:
  \<^item> a \<^verbatim>\<open>_scan\<close> that was fulfilled with a scanned document has left the promise cached
    for its URL fulfilled with that document;
  \<^item> if \<open>sp\<close> is fulfilled with the scanned document \<open>d\<close>, the continuation of
    \<^verbatim>\<open>_scanImport\<close> fulfils \<open>self\<close> while the slot of the import is still what it was,
    and puts the assignment into the microtask queue ahead of every reaction to
    \<open>self\<close>; when that microtask runs, the slot holds \<open>d\<close>;
  \<^item> if \<open>sp\<close> is still pending, as when the nested \<^verbatim>\<open>_scan\<close> returned \<^verbatim>\<open>'visited'\<close> for a URL
    whose scan is in flight, the continuation fulfils \<open>self\<close>, leaves every scanned
    document as it is and defers the assignment to the settling of \<open>sp\<close>.
\<close>

theorem import_slot_assigned_by_callback:
  assumes m: "m = run w fuel es (new_Analyzer opts)"
    and ctx: "contexts (store m) this = Some ctx"
    and self: "origin (store m) self = Some (Called (ScanImport this owner i ws visited))"
      "settled (store m) self = None"
    and feature: "the_feature (store m) owner i = ScannedImport t u0 usr sr slot"
    and sp: "map_of (scannedDocumentPromises (c_cache ctx)) u = Some sp"
  shows
    "(origin (store m) q = Some (Called (Scan this' u' c vo)) \<and>
      settled (store m) q = Some (Fulfilled (Scanned d')) \<longrightarrow>
        (\<exists>sp'. map_of (scannedDocumentPromises (the_cache (store m) this')) u' = Some sp' \<and>
               settled (store m) sp' = Some (Fulfilled (Scanned d')))) \<and>
     (settled (store m) sp = Some (Fulfilled (Scanned d)) \<longrightarrow>
        (let m' = exec (scanImport_resume this owner i ws u (Fulfilled v)) h self m;
             assign = Reaction (Callback (assign_callback owner i)) (Fulfilled (Scanned d))
         in settled (store m') self = Some (Fulfilled Null) \<and>
            slot_value (the_feature (store m') owner i) = slot \<and>
            microtasks m' =
              microtasks m @ assign # map (\<lambda>x. Reaction x (Fulfilled Null)) (reactions m self) \<and>
            slot_value (the_feature (store (run_job w fuel assign m')) owner i) = Some d)) \<and>
     (settled (store m) sp = None \<longrightarrow>
        (let m' = exec (scanImport_resume this owner i ws u (Fulfilled v)) h self m
         in settled (store m') self = Some (Fulfilled Null) \<and>
            sdocs (store m') = sdocs (store m) \<and>
            microtasks m' =
              microtasks m @ map (\<lambda>x. Reaction x (Fulfilled Null)) (reactions m self) \<and>
            reactions m' sp = reactions m sp @ [Callback (assign_callback owner i)]))"
proof -
  have wf: "wf_store (store m)" unfolding m by (rule reachable_wf)
  have tc: "the_cache (store m) this = c_cache ctx"
    using ctx by (simp add: the_cache_def the_context_def)
  have "scan_promise (store m) sp" using wf ctx sp unfolding wf_store_def wf_core_def by blast
  with self(1) have ne: "sp \<noteq> self" by (auto simp: scan_promise_def)
  have e: "exec (scanImport_resume this owner i ws u (Fulfilled v)) h self m =
           settle self (Fulfilled Null) (subscribe sp (Callback (assign_callback owner i)) m)"
    by (rule exec_scanImport_fulfilled) (simp add: tc sp)
  have 1: "\<exists>sp'. map_of (scannedDocumentPromises (the_cache (store m) this')) u' = Some sp' \<and>
               settled (store m) sp' = Some (Fulfilled (Scanned d'))"
    if "origin (store m) q = Some (Called (Scan this' u' c vo))"
      "settled (store m) q = Some (Fulfilled (Scanned d'))"
    using reachable_cached [OF m that] .
  have 2: "(let m' = exec (scanImport_resume this owner i ws u (Fulfilled v)) h self m;
             assign = Reaction (Callback (assign_callback owner i)) (Fulfilled (Scanned d))
         in settled (store m') self = Some (Fulfilled Null) \<and>
            slot_value (the_feature (store m') owner i) = slot \<and>
            microtasks m' =
              microtasks m @ assign # map (\<lambda>x. Reaction x (Fulfilled Null)) (reactions m self) \<and>
            slot_value (the_feature (store (run_job w fuel assign m')) owner i) = Some d)"
    if st: "settled (store m) sp = Some (Fulfilled (Scanned d))"
  proof -
    have f': "the_feature (settle_promise self (Fulfilled Null) (store m)) owner i =
                ScannedImport t u0 usr sr slot"
      using feature by (simp add: the_feature_settle_promise)
    show ?thesis
      unfolding e Let_def
      using st self(2) feature slot_value_assign [OF f', of d]
      by (simp add: subscribe_def settle_def run_job_def run_reaction_def assign_callback_def
          the_feature_settle_promise)
         (simp add: settle_promise_def)
  qed
  have 3: "(let m' = exec (scanImport_resume this owner i ws u (Fulfilled v)) h self m
         in settled (store m') self = Some (Fulfilled Null) \<and>
            sdocs (store m') = sdocs (store m) \<and>
            microtasks m' =
              microtasks m @ map (\<lambda>x. Reaction x (Fulfilled Null)) (reactions m self) \<and>
            reactions m' sp = reactions m sp @ [Callback (assign_callback owner i)])"
    if st: "settled (store m) sp = None"
    unfolding e Let_def
    using st self(2) ne
    by (simp add: subscribe_def settle_def settle_promise_def)
  show ?thesis using 1 2 3 by blast
qed

text \<open>
  Claim C8, as stated, does not hold: \<^verbatim>\<open>a.html\<close> imports \<^verbatim>\<open>b.html\<close> twice. While \<^verbatim>\<open>b.html\<close>
  is being loaded for the first import and no microtask is left to run, the nested
  \<^verbatim>\<open>_scan\<close> of the second import has succeeded (with \<^verbatim>\<open>'visited'\<close>), the promise of its
  \<^verbatim>\<open>_scanImport\<close> is fulfilled and its caller has adopted the result, but the slot of
  the import is still unassigned. For the first import, whose nested \<^verbatim>\<open>_scan\<close> produced the
  scanned document of \<^verbatim>\<open>b.html\<close>, there is a state in which the promise of \<^verbatim>\<open>_scanImport\<close>
  is fulfilled and the slot is not assigned yet.
\<close>

theorem import_slot_unassigned_when_scanImport_resolved:
  "let m = example_run trace_a_loading in
     the_feature (store m) 0 1 = ScannedImport ''html-import'' ''b.html'' None None None \<and>
     origin (store m) 23 = Some (Called (ScanImport 0 0 1 0 0)) \<and>
     origin (store m) 24 = Some (Called (Scan 0 ''b.html'' None (Some 0))) \<and>
     settled (store m) 24 = Some (Fulfilled Visited) \<and>
     settled (store m) 23 = Some (Fulfilled Null) \<and>
     origin (store m) 22 = Some (Called (ScanDependency 0 0 1 0)) \<and>
     settled (store m) 22 = Some (Fulfilled Null) \<and>
     length (microtasks m) = 0 \<and>
     slot_value (the_feature (store m) 0 1) = None \<and>
     (let n = example_run (trace_a_first_import @ [Tick]) in
        origin (store n) 18 = Some (Called (ScanImport 0 0 0 0 0)) \<and>
        origin (store n) 19 = Some (Called (Scan 0 ''b.html'' None (Some 0))) \<and>
        settled (store n) 19 = Some (Fulfilled (Scanned 1)) \<and>
        settled (store n) 18 = Some (Fulfilled Null) \<and>
        slot_value (the_feature (store n) 0 0) = None)"
  by code_simp

lemma example_first_import:
  "let m = example_run trace_a_first_import in
     next_cid (store m) = 1 \<and>
     origin (store m) 18 = Some (Called (ScanImport 0 0 0 0 0)) \<and>
     settled (store m) 18 = None \<and>
     the_feature (store m) 0 0 = ScannedImport ''html-import'' ''b.html'' None None None \<and>
     map_of (scannedDocumentPromises (the_cache (store m) 0)) ''b.html'' = Some 20 \<and>
     origin (store m) 19 = Some (Called (Scan 0 ''b.html'' None (Some 0))) \<and>
     settled (store m) 19 = Some (Fulfilled (Scanned 1)) \<and>
     settled (store m) 20 = Some (Fulfilled (Scanned 1))"
  by code_simp

lemma example_second_import:
  "let m = example_run trace_a_second_import in
     next_cid (store m) = 1 \<and>
     origin (store m) 23 = Some (Called (ScanImport 0 0 1 0 0)) \<and>
     settled (store m) 23 = None \<and>
     the_feature (store m) 0 1 = ScannedImport ''html-import'' ''b.html'' None None None \<and>
     map_of (scannedDocumentPromises (the_cache (store m) 0)) ''b.html'' = Some 20 \<and>
     settled (store m) 24 = Some (Fulfilled Visited) \<and>
     settled (store m) 20 = None"
  by code_simp

theorem import_slot_assigned_by_callback_witness:
  "settled (store (example_run trace_a_first_import)) 19 = Some (Fulfilled (Scanned 1)) \<and>
   map_of (scannedDocumentPromises (the_cache (store (example_run trace_a_first_import)) 0))
     ''b.html'' = Some 20 \<and>
   settled (store (example_run trace_a_first_import)) 20 = Some (Fulfilled (Scanned 1)) \<and>
   settled (store (example_run trace_a_first_import)) 18 = None \<and>
   settled (store (exec (scanImport_resume 0 0 0 0 ''b.html'' (Fulfilled (Scanned 1)))
      (run_call example_world 10 10) 18 (example_run trace_a_first_import))) 18
     = Some (Fulfilled Null) \<and>
   slot_value (the_feature (store (exec (scanImport_resume 0 0 0 0 ''b.html'' (Fulfilled (Scanned 1)))
      (run_call example_world 10 10) 18 (example_run trace_a_first_import))) 0 0) = None \<and>
   slot_value (the_feature (store (run_job example_world 10
      (Reaction (Callback (assign_callback 0 0)) (Fulfilled (Scanned 1)))
      (exec (scanImport_resume 0 0 0 0 ''b.html'' (Fulfilled (Scanned 1)))
         (run_call example_world 10 10) 18 (example_run trace_a_first_import)))) 0 0) = Some 1 \<and>
   settled (store (example_run trace_a_second_import)) 20 = None \<and>
   settled (store (example_run trace_a_second_import)) 23 = None \<and>
   settled (store (exec (scanImport_resume 0 0 1 0 ''b.html'' (Fulfilled Visited))
      (run_call example_world 10 10) 23 (example_run trace_a_second_import))) 23
     = Some (Fulfilled Null) \<and>
   sdocs (store (exec (scanImport_resume 0 0 1 0 ''b.html'' (Fulfilled Visited))
      (run_call example_world 10 10) 23 (example_run trace_a_second_import)))
     = sdocs (store (example_run trace_a_second_import))"
proof -
  note o1 = example_first_import [unfolded Let_def]
  note o2 = example_second_import [unfolded Let_def]
  have c1: "contexts (store (example_run trace_a_first_import)) 0 =
             Some (the_context (store (example_run trace_a_first_import)) 0)"
    by (rule reachable_context [OF example_run_def]) (simp add: o1)
  have c2: "contexts (store (example_run trace_a_second_import)) 0 =
             Some (the_context (store (example_run trace_a_second_import)) 0)"
    by (rule reachable_context [OF example_run_def]) (simp add: o2)
  have tc: "c_cache (the_context s 0) = the_cache s 0" for s
    by (simp add: the_cache_def)
  from o1 have h1:
    "origin (store (example_run trace_a_first_import)) 18 = Some (Called (ScanImport 0 0 0 0 0))"
    "settled (store (example_run trace_a_first_import)) 18 = None"
    "the_feature (store (example_run trace_a_first_import)) 0 0 =
       ScannedImport ''html-import'' ''b.html'' None None None"
    "map_of (scannedDocumentPromises (c_cache (the_context (store (example_run trace_a_first_import)) 0)))
       ''b.html'' = Some 20"
    by (simp_all add: tc)
  from o2 have h2:
    "origin (store (example_run trace_a_second_import)) 23 = Some (Called (ScanImport 0 0 1 0 0))"
    "settled (store (example_run trace_a_second_import)) 23 = None"
    "the_feature (store (example_run trace_a_second_import)) 0 1 =
       ScannedImport ''html-import'' ''b.html'' None None None"
    "map_of (scannedDocumentPromises (c_cache (the_context (store (example_run trace_a_second_import)) 0)))
       ''b.html'' = Some 20"
    by (simp_all add: tc)
  from import_slot_assigned_by_callback [OF example_run_def c1 h1, where d = 1
      and v = "Scanned 1" and h = "run_call example_world 10 10"]
    import_slot_assigned_by_callback [OF example_run_def c2 h2, where v = Visited
      and h = "run_call example_world 10 10"]
    o1 o2
  show ?thesis by (simp add: Let_def)
qed

section \<open>Analysis with provided contents\<close>

lemma fileChanged_fields:
  "c_loader (fileChanged s ctx u) = c_loader ctx"
  "c_resolver (fileChanged s ctx u) = c_resolver ctx"
  "c_parsers (fileChanged s ctx u) = c_parsers ctx"
  "c_generation (fileChanged s ctx u) = c_generation ctx + 1"
  "c_scanners (fileChanged s ctx u) = c_scanners ctx"
  "c_lazyEdges (fileChanged s ctx u) = c_lazyEdges ctx"
  by (simp_all add: fileChanged_def fork_def new_AnalyzerCacheContext_def Let_def)



lemma proj_new_promise [simp]:
  "next_pid (new_promise src s) = Suc (next_pid s)"
  "settled (new_promise src s) = settled s"
  "contexts (new_promise src s) = contexts s"
  "analyzer (new_promise src s) = analyzer s"
  "next_cid (new_promise src s) = next_cid s"
  "next_vid (new_promise src s) = next_vid s"
  "visited_sets (new_promise src s) = visited_sets s"
  "origin (new_promise src s) = (origin s)(next_pid s \<mapsto> src)"
  by (simp_all add: new_promise_def)

lemma proj_new_settled_promise [simp]:
  "next_pid (new_settled_promise r s) = Suc (next_pid s)"
  "settled (new_settled_promise r s) = (settled s)(next_pid s \<mapsto> r)"
  "contexts (new_settled_promise r s) = contexts s"
  "analyzer (new_settled_promise r s) = analyzer s"
  "next_cid (new_settled_promise r s) = next_cid s"
  "next_vid (new_settled_promise r s) = next_vid s"
  "visited_sets (new_settled_promise r s) = visited_sets s"
  "origin (new_settled_promise r s) = origin s"
  by (simp_all add: new_settled_promise_def)

lemma proj_settle_promise [simp]:
  "next_pid (settle_promise q r s) = next_pid s"
  "settled (settle_promise q r s) = (settled s)(q \<mapsto> r)"
  "contexts (settle_promise q r s) = contexts s"
  "analyzer (settle_promise q r s) = analyzer s"
  "next_cid (settle_promise q r s) = next_cid s"
  "next_vid (settle_promise q r s) = next_vid s"
  "visited_sets (settle_promise q r s) = visited_sets s"
  "origin (settle_promise q r s) = origin s"
  by (simp_all add: settle_promise_def)

lemma proj_update_cache [simp]:
  "next_pid (update_cache g f s) = next_pid s"
  "settled (update_cache g f s) = settled s"
  "analyzer (update_cache g f s) = analyzer s"
  "next_cid (update_cache g f s) = next_cid s"
  "next_vid (update_cache g f s) = next_vid s"
  "visited_sets (update_cache g f s) = visited_sets s"
  "origin (update_cache g f s) = origin s"
  by (simp_all add: update_cache_def)

lemma proj_fork_context [simp]:
  "next_pid (fork_context x s) = next_pid s"
  "settled (fork_context x s) = settled s"
  "analyzer (fork_context x s) = next_cid s"
  "next_cid (fork_context x s) = Suc (next_cid s)"
  "next_vid (fork_context x s) = next_vid s"
  "visited_sets (fork_context x s) = visited_sets s"
  "origin (fork_context x s) = origin s"
  by (simp_all add: fork_context_def)

lemma proj_new_Set [simp]:
  "next_pid (new_Set s) = next_pid s"
  "settled (new_Set s) = settled s"
  "contexts (new_Set s) = contexts s"
  "analyzer (new_Set s) = analyzer s"
  "next_cid (new_Set s) = next_cid s"
  "next_vid (new_Set s) = Suc (next_vid s)"
  "origin (new_Set s) = origin s"
  "v = next_vid s \<Longrightarrow> the_visited (new_Set s) v = []"
  by (simp_all add: new_Set_def the_visited_def)

lemma proj_visited_add [simp]:
  "next_pid (visited_add v u s) = next_pid s"
  "settled (visited_add v u s) = settled s"
  "contexts (visited_add v u s) = contexts s"
  "analyzer (visited_add v u s) = analyzer s"
  "next_cid (visited_add v u s) = next_cid s"
  "next_vid (visited_add v u s) = next_vid s"
  "origin (visited_add v u s) = origin s"
  by (simp_all add: visited_add_def)

lemma the_context_simps [simp]:
  "the_context (new_promise src s) = the_context s"
  "the_context (new_settled_promise r s) = the_context s"
  "the_context (settle_promise q r s) = the_context s"
  "the_context (new_Set s) = the_context s"
  "the_context (visited_add v u s) = the_context s"
  "g = next_cid s \<Longrightarrow> the_context (fork_context x s) g = x"
  by (rule ext, simp add: the_context_def)+ (simp add: the_context_def fork_context_def)

lemma the_cache_simps [simp]:
  "the_cache (new_promise src s) = the_cache s"
  "the_cache (new_settled_promise r s) = the_cache s"
  "the_cache (settle_promise q r s) = the_cache s"
  "the_cache (new_Set s) = the_cache s"
  "the_cache (visited_add v u s) = the_cache s"
  "g = next_cid s \<Longrightarrow> the_cache (fork_context x s) g = c_cache x"
  by (rule ext, simp add: the_cache_def)+ (simp add: the_cache_def)

lemma the_context_update_cache:
  "the_context (update_cache g f s) g' =
     (if g' = g then (the_context s g)\<lparr>c_cache := f (the_cache s g)\<rparr> else the_context s g')"
  by (simp add: update_cache_def the_context_def the_cache_def)

lemma context_fields_update_cache [simp]:
  "c_loader (the_context (update_cache g f s) g') = c_loader (the_context s g')"
  "c_resolver (the_context (update_cache g f s) g') = c_resolver (the_context s g')"
  "c_parsers (the_context (update_cache g f s) g') = c_parsers (the_context s g')"
  "c_scanners (the_context (update_cache g f s) g') = c_scanners (the_context s g')"
  "c_lazyEdges (the_context (update_cache g f s) g') = c_lazyEdges (the_context s g')"
  "resolveUrl (the_context (update_cache g f s) g') = resolveUrl (the_context s g')"
  by (rule ext | simp add: the_context_update_cache resolveUrl_def)+


lemma fileChanged_new_promise [simp]: "fileChanged (new_promise src s) = fileChanged s"
  by (rule ext)+ (simp add: fileChanged_def dependants_of_def the_sdoc_def new_promise_def)

lemma parseContents_simps [simp]:
  "parseContents w (the_context (update_cache g f s) g') = parseContents w (the_context s g')"
  "parseContents w (fileChanged s ctx u) = parseContents w ctx"
  by (rule ext | simp add: parseContents_def the_context_update_cache fileChanged_fields)+

lemma canLoad_simps [simp]:
  "canLoad (c_loader (the_context (update_cache g f s) g')) = canLoad (c_loader (the_context s g'))"
  by simp




lemma c_generation_update_cache [simp]:
  "c_generation (the_context (update_cache g f s) g') = c_generation (the_context s g')"
  by (simp add: the_context_update_cache)















section \<open>Lazy imports\<close>

lemma effect_refl: "fresh s \<Longrightarrow> effect this s [] s"
  by (simp add: effect_def)

lemma effect_trans:
  "effect this s cs s' \<Longrightarrow> effect this s' cs' s'' \<Longrightarrow> effect this s (cs @ cs') s''"
  by (simp add: effect_def)

lemma effect_fresh: "effect this s cs s' \<Longrightarrow> fresh s'"
  by (simp add: effect_def)

lemma calls_made_same:
  "origin s' = origin s \<Longrightarrow> next_pid s' = next_pid s \<Longrightarrow> calls_made s' = calls_made s"
  by (simp add: calls_made_def)

lemma calls_made_Suc:
  assumes "\<And>p. p < next_pid s \<Longrightarrow> origin s' p = origin s p" "next_pid s' = Suc (next_pid s)"
  shows "calls_made s' =
           calls_made s @ (case origin s' (next_pid s) of Some (Called c) \<Rightarrow> [c] | _ \<Rightarrow> [])"
proof -
  have e: "map (\<lambda>p. case origin s' p of Some (Called c) \<Rightarrow> [c] | _ \<Rightarrow> []) [0 ..< next_pid s] =
        map (\<lambda>p. case origin s p of Some (Called c) \<Rightarrow> [c] | _ \<Rightarrow> []) [0 ..< next_pid s]"
    by (rule map_cong) (simp_all add: assms(1))
  show ?thesis by (simp add: calls_made_def assms(2) e)
qed

lemma calls_made_new_promise:
  "calls_made (new_promise src s) =
     calls_made s @ (case src of Called c \<Rightarrow> [c] | _ \<Rightarrow> [])"
proof -
  have "calls_made (new_promise src s) =
          calls_made s @ (case origin (new_promise src s) (next_pid s) of
                            Some (Called c) \<Rightarrow> [c] | _ \<Rightarrow> [])"
    by (rule calls_made_Suc) (simp_all add: new_promise_def)
  then show ?thesis by (simp add: new_promise_def)
qed

lemma calls_made_new_settled_promise:
  "fresh s \<Longrightarrow> calls_made (new_settled_promise r s) = calls_made s"
proof -
  assume f: "fresh s"
  have "calls_made (new_settled_promise r s) =
          calls_made s @ (case origin (new_settled_promise r s) (next_pid s) of
                            Some (Called c) \<Rightarrow> [c] | _ \<Rightarrow> [])"
    by (rule calls_made_Suc) (simp_all add: new_settled_promise_def)
  then show ?thesis using f by (simp add: new_settled_promise_def fresh_def)
qed

lemma silentD: "silent this f \<Longrightarrow> fresh s \<Longrightarrow> effect this s [] (f s)"
  by (simp add: silent_def)

lemma silentI:
  assumes "\<And>s. origin (f s) = origin s" "\<And>s. next_pid (f s) = next_pid s"
    "\<And>s. sdocs (f s) = sdocs s"
    "\<And>s. resolveUrl (the_context (f s) this) = resolveUrl (the_context s this)"
  shows "silent this f"
proof -
  have "calls_made (f s) = calls_made s" for s
    by (rule calls_made_same) (simp_all add: assms)
  then show ?thesis
    unfolding silent_def effect_def scans_and_loads_made_def
    by (simp add: assms fresh_def)
qed

lemma silent_new_settled_promise: "silent this (new_settled_promise r)"
  unfolding silent_def effect_def scans_and_loads_made_def
  by (simp add: calls_made_new_settled_promise)
     (simp add: fresh_def new_settled_promise_def)

lemma silent_settle_promise: "silent this (settle_promise q r)"
  by (rule silentI) (simp_all add: settle_promise_def the_context_def)

lemma sdocs_update_cache [simp]: "sdocs (update_cache g f s) = sdocs s"
  by (simp add: update_cache_def)

lemma silent_update_cache: "silent this (update_cache g f)"
  by (rule silentI) simp_all

lemma silent_visited_add: "silent this (visited_add v u)"
  by (rule silentI) (simp_all add: visited_add_def the_context_def)

lemma silent_new_Set: "silent this new_Set"
  by (rule silentI) (simp_all add: new_Set_def the_context_def)

lemma silent_fuel: "silent this (\<lambda>s. s\<lparr>fuel_exhausted := b\<rparr>)"
  by (rule silentI) (simp_all add: the_context_def)

lemma silent_Outside: "silent this (new_promise (Outside x))"
  unfolding silent_def effect_def scans_and_loads_made_def
  by (simp add: calls_made_new_promise) (simp add: fresh_def new_promise_def)

lemma silent_new_all_promise: "silent this (new_all_promise ps)"
proof (cases "ps = []")
  case True
  then have "new_all_promise ps = new_settled_promise (Fulfilled Undefined)"
    by (intro ext) (simp add: new_all_promise_def)
  then show ?thesis by (simp only: silent_new_settled_promise)
next
  case False
  then have e: "new_all_promise ps = (\<lambda>s. s\<lparr>next_pid := Suc (next_pid s)\<rparr>)"
    by (intro ext) (simp add: new_all_promise_def)
  have c: "calls_made (s\<lparr>next_pid := Suc (next_pid s)\<rparr>) = calls_made s" if "fresh s" for s
  proof -
    have "calls_made (s\<lparr>next_pid := Suc (next_pid s)\<rparr>) =
          calls_made s @ (case origin (s\<lparr>next_pid := Suc (next_pid s)\<rparr>) (next_pid s) of
                            Some (Called c) \<Rightarrow> [c] | _ \<Rightarrow> [])"
      by (rule calls_made_Suc) simp_all
    then show ?thesis using that by (simp add: fresh_def)
  qed
  have f: "fresh (s\<lparr>next_pid := Suc (next_pid s)\<rparr>)" if "fresh s" for s
    using that by (simp add: fresh_def)
  have t: "the_context (s\<lparr>next_pid := Suc (next_pid s)\<rparr>) this = the_context s this" for s
    by (simp add: the_context_def)
  show ?thesis
    unfolding e silent_def effect_def scans_and_loads_made_def
    by (simp add: c f t)
qed

lemma effect_new_call:
  assumes "fresh s"
  shows "effect this s (if is_scan_or_load c then [c] else []) (new_promise (Called c) s)"
  using assms
  unfolding effect_def scans_and_loads_made_def
  by (simp add: calls_made_new_promise) (simp add: fresh_def new_promise_def)

lemma doesD:
  "does this prog h self m cs \<Longrightarrow> fresh (store m) \<Longrightarrow>
   effect this (store m) cs (store (exec prog h self m))"
  by (simp add: does_def)

lemma store_subscribe [simp]: "store (subscribe p x m) = store m"
  by (simp add: subscribe_def split: option.splits)

lemma store_fold_subscribe [simp]: "store (fold (\<lambda>p. subscribe p x) ps m) = store m"
  by (induction ps arbitrary: m) simp_all

lemma store_promise_all [simp]: "store (promise_all ps m) = new_all_promise ps (store m)"
  by (simp add: promise_all_def Let_def)

lemma effect_settle: "fresh (store m) \<Longrightarrow> effect this (store m) [] (store (settle q r m))"
  by (cases "settled (store m) q")
     (simp_all add: settle_def effect_refl silentD [OF silent_settle_promise])

lemma does_Return [intro!]: "does this (Return v) h self m []"
  by (simp add: does_def effect_settle)

lemma does_Throw [intro!]: "does this (Throw e) h self m []"
  by (simp add: does_def effect_settle)

lemma does_ReturnPromise [intro!]: "does this (ReturnPromise p) h self m []"
  by (simp add: does_def effect_refl)

lemma does_Await [intro!]: "does this (Await p k) h self m []"
  by (simp add: does_def effect_refl)

lemma does_await_value [intro!]: "does this (await_value p k) h self m []"
  by (simp add: await_value_def does_Await)

lemma does_Read: "does this (k (store m)) h self m cs \<Longrightarrow> does this (Read k) h self m cs"
  by (simp add: does_def)

lemma does_Write:
  assumes "silent this f" "does this k h self (m\<lparr>store := f (store m)\<rparr>) cs"
  shows "does this (Write f k) h self m cs"
  unfolding does_def
proof
  assume f: "fresh (store m)"
  from silentD [OF assms(1) f] have 1: "effect this (store m) [] (f (store m))" .
  from doesD [OF assms(2)] effect_fresh [OF 1]
  have "effect this (f (store m)) cs (store (exec k h self (m\<lparr>store := f (store m)\<rparr>)))"
    by simp
  from effect_trans [OF 1 this] show "effect this (store m) cs (store (exec (Write f k) h self m))"
    by simp
qed

lemma does_Async:
  assumes "fresh (new_promise (Called c) (store m)) \<Longrightarrow>
           effect this (new_promise (Called c) (store m)) cs1
             (store (h c (next_pid (store m)) (m\<lparr>store := new_promise (Called c) (store m)\<rparr>)))"
    and "does this (k (next_pid (store m))) h self
           (h c (next_pid (store m)) (m\<lparr>store := new_promise (Called c) (store m)\<rparr>)) cs2"
    and "cs = (if is_scan_or_load c then [c] else []) @ cs1 @ cs2"
  shows "does this (Async c k) h self m cs"
  unfolding does_def
proof
  let ?m1 = "m\<lparr>store := new_promise (Called c) (store m)\<rparr>"
  let ?m2 = "h c (next_pid (store m)) ?m1"
  assume f: "fresh (store m)"
  have 1: "effect this (store m) (if is_scan_or_load c then [c] else []) (store ?m1)"
    using effect_new_call [OF f] by simp
  have 2: "effect this (store ?m1) cs1 (store ?m2)"
    using assms(1) effect_fresh [OF 1] by simp
  have 3: "effect this (store ?m2) cs2 (store (exec (k (next_pid (store m))) h self ?m2))"
    using doesD [OF assms(2)] effect_fresh [OF 2] by simp
  from effect_trans [OF 1 effect_trans [OF 2 3]]
  show "effect this (store m) cs (store (exec (Async c k) h self m))"
    by (simp add: assms(3))
qed

lemma does_External:
  assumes "does this (k (next_pid (store m))) h self
             (m\<lparr>store := new_promise (Outside r) (store m)\<rparr>) cs"
  shows "does this (External r k) h self m cs"
  using does_Write [OF silent_Outside [of this r], where k = "k (next_pid (store m))"] assms
  by (simp add: does_def)

lemma does_PromiseResolve:
  assumes "does this (k (next_pid (store m))) h self
             (m\<lparr>store := new_settled_promise (Fulfilled v) (store m)\<rparr>) cs"
  shows "does this (PromiseResolve v k) h self m cs"
  using does_Write [OF silent_new_settled_promise [of this "Fulfilled v"],
      where k = "k (next_pid (store m))"] assms
  by (simp add: does_def)

lemma does_PromiseAll:
  assumes "does this (k (next_pid (store m))) h self (promise_all ps m) cs"
  shows "does this (PromiseAll ps k) h self m cs"
  unfolding does_def
proof
  assume f: "fresh (store m)"
  from silentD [OF silent_new_all_promise f]
  have 1: "effect this (store m) [] (store (promise_all ps m))" by simp
  from doesD [OF assms effect_fresh [OF 1]]
  have "effect this (store (promise_all ps m)) cs
          (store (exec (k (next_pid (store m))) h self (promise_all ps m)))" .
  from effect_trans [OF 1 this]
  show "effect this (store m) cs (store (exec (PromiseAll ps k) h self m))" by simp
qed

lemma does_Then:
  assumes "does this k h self (subscribe p (Callback f) m) cs"
  shows "does this (Then p f k) h self m cs"
  using assms by (simp add: does_def)

lemma quietD:
  assumes "quiet this h c" "fresh s"
  shows "effect this s [] (store (h c q (m\<lparr>store := s\<rparr>)))"
  using assms(1) [unfolded quiet_def, rule_format, of "m\<lparr>store := s\<rparr>" q] assms(2) by simp

lemma does_Async_quiet:
  assumes "quiet this h c" "\<not> is_scan_or_load c"
    and "does this (k (next_pid (store m))) h self
           (h c (next_pid (store m)) (m\<lparr>store := new_promise (Called c) (store m)\<rparr>)) cs"
  shows "does this (Async c k) h self m cs"
proof (rule does_Async [where ?cs1.0 = "[]" and ?cs2.0 = cs])
  assume "fresh (new_promise (Called c) (store m))"
  then show "effect this (new_promise (Called c) (store m)) []
     (store (h c (next_pid (store m)) (m\<lparr>store := new_promise (Called c) (store m)\<rparr>)))"
    by (rule quietD [OF assms(1)])
qed (use assms in simp_all)

lemma quietI:
  assumes "\<And>q m. does this (body w fuel c) (run_call w fuel k) q m []"
  shows "quiet this (run_call w fuel (Suc k)) c"
  using assms by (simp add: quiet_def does_def)

lemma quiet_0: "quiet this (run_call w fuel 0) c"
  by (simp add: quiet_def silentD [OF silent_fuel])

lemma quiet_cases:
  "(\<And>n. k = Suc n \<Longrightarrow> quiet this (run_call w fuel (Suc n)) c) \<Longrightarrow>
   quiet this (run_call w fuel k) c"
  by (cases k) (simp_all add: quiet_0)

text \<open>
  The functions that \<^verbatim>\<open>_scanDependencies\<close> reaches before it suspends, other than
  \<^verbatim>\<open>_scanImport\<close>, call none of \<^verbatim>\<open>_scanImport\<close>, \<^verbatim>\<open>_scan\<close> and \<^verbatim>\<open>load\<close> before they suspend.
\<close>

lemma quiet_Scan_async: "quiet this (run_call w fuel k) (Scan_async g u c)"
  apply (rule quiet_cases, rule quietI)
  apply (simp add: scan_async_def)
  apply (rule does_PromiseResolve)
  apply (rule does_await_value)
  done

lemma quiet_GetScannedFeatures: "quiet this (run_call w fuel k) (GetScannedFeatures g doc)"
  apply (rule quiet_cases, rule quietI)
  apply (simp add: getScannedFeatures_def)
  apply (rule does_Read)
  apply (auto split: option.splits intro!: does_External)
  done

lemma quiet_ScanDocument: "quiet this (run_call w fuel k) (ScanDocument g doc ac)"
  apply (rule quiet_cases, rule quietI)
  apply (simp add: scanDocument_def)
  apply (rule does_Async_quiet [OF quiet_GetScannedFeatures])
   apply simp
  apply (rule does_await_value)
  done

lemma quiet_ScanInlineSource:
  "quiet this (run_call w fuel k) (ScanInlineSource g t c u v ii ac)"
  apply (rule quiet_cases, rule quietI)
  apply (simp add: scanInlineSource_def Let_def)
  apply (rule does_Read)
  apply (auto split: sum.splits)
  apply (rule does_Async_quiet [OF quiet_ScanDocument])
   apply simp
  apply (rule does_await_value)
  done

lemma quiet_ScanInlineDocument:
  "quiet this (run_call w fuel k) (ScanInlineDocument g sd i cd ws v)"
  apply (rule quiet_cases, rule quietI)
  apply (simp add: scanInlineDocument_def Let_def)
  apply (rule does_Read)
  apply (auto split: scanned_feature.splits)
  apply (rule does_Async_quiet [OF quiet_ScanInlineSource])
   apply simp
  apply (rule does_Await)
  done

lemma does_scan_rest: "does this (scan_rest g u c v) (run_call w fuel k) self m []"
  unfolding scan_rest_def
  apply (rule does_Write [OF silent_visited_add])
  apply (rule does_Read)
  apply (auto split: option.splits)
  apply (rule does_Async_quiet [OF quiet_Scan_async])
   apply simp
  apply (rule does_Write)
   apply (simp add: set_scannedDocumentPromise_def silent_update_cache)
  apply (rule does_await_value)
  done

lemma quiet_Scan: "quiet this (run_call w fuel k) (Scan g u c vo)"
  apply (rule quiet_cases, rule quietI)
  apply (simp add: scan_def)
  apply (rule does_Read)
  apply (auto split: option.splits intro!: does_scan_rest does_Write [OF silent_new_Set])
  done

text \<open>\<^verbatim>\<open>_scanImport\<close> calls \<^verbatim>\<open>_scan\<close> on the resolved URL of the import.\<close>

lemma does_scanImport:
  assumes "the_feature (store m) sd i = ScannedImport t u usr sr d"
  shows "does this (scanImport this sd i ws v) (run_call w fuel k) self m
           [Scan this (resolveUrl (the_context (store m) this) u) None (Some v)]"
  unfolding scanImport_def
  apply (rule does_Read)
  apply (simp add: assms Let_def)
  apply (rule does_Async [where ?cs1.0 = "[]" and ?cs2.0 = "[]"])
    apply (erule quietD [OF quiet_Scan])
   apply (rule does_Await)
  apply simp
  done

lemma the_feature_new_promise [simp]: "the_feature (new_promise src s) = the_feature s"
  by (intro ext) (simp add: the_feature_def the_sdoc_def new_promise_def)

text \<open>The callback of \<^verbatim>\<open>_scanDependencies\<close> on the feature \<open>i\<close>.\<close>

lemma does_scanDependency:
  "does this (scanDependency this sd i v) (run_call w fuel (Suc k)) self m
     (import_scan_of this sd v (store m) i)"
proof (cases "the_feature (store m) sd i")
  case (ScannedImport t u usr sr d)
  show ?thesis
  proof (cases "t = ''lazy-html-import''")
    case True
    with ScannedImport show ?thesis
      by (auto simp: scanDependency_def import_scan_of_def intro!: does_Read)
  next
    case False
    let ?m1 = "m\<lparr>store := new_promise (Called (ScanImport this sd i sd v)) (store m)\<rparr>"
    have f: "the_feature (store ?m1) sd i = ScannedImport t u usr sr d"
      using ScannedImport by simp
    have "does this (Async (ScanImport this sd i sd v) ReturnPromise) (run_call w fuel (Suc k))
            self m
            [ScanImport this sd i sd v,
             Scan this (resolveUrl (the_context (store m) this) u) None (Some v)]"
      apply (rule does_Async [where ?cs2.0 = "[]"
            and ?cs1.0 = "[Scan this (resolveUrl (the_context (store m) this) u) None (Some v)]"])
        apply (use doesD [OF does_scanImport [OF f, where this = this and w = w and fuel = fuel
                and k = k and ws = sd and v = v]] in simp)
       apply (rule does_ReturnPromise)
      apply simp
      done
    with ScannedImport False show ?thesis
      by (auto simp: scanDependency_def import_scan_of_def intro!: does_Read)
  qed
next
  case (ScannedInlineDocument t c lo ac an d)
  have "does this (Async (ScanInlineDocument this sd i (document (the_sdoc (store m) sd)) sd v)
           ReturnPromise) (run_call w fuel (Suc k)) self m []"
    by (rule does_Async_quiet [OF quiet_ScanInlineDocument]) (simp, rule does_ReturnPromise)
  with ScannedInlineDocument show ?thesis
    by (auto simp: scanDependency_def import_scan_of_def intro!: does_Read)
qed (auto simp: scanDependency_def import_scan_of_def intro!: does_Read)

lemma import_scan_of_effect:
  "effect this s cs s' \<Longrightarrow> import_scan_of this sd v s' = import_scan_of this sd v s"
proof -
  assume e: "effect this s cs s'"
  then have "the_sdoc s' sd = the_sdoc s sd" by (simp add: effect_def the_sdoc_def)
  then have tf: "the_feature s' sd = the_feature s sd"
    by (intro ext) (simp add: the_feature_def)
  from e have r: "resolveUrl (the_context s' this) = resolveUrl (the_context s this)"
    by (simp add: effect_def)
  show ?thesis unfolding import_scan_of_def r tf by simp
qed

text \<open>\<^verbatim>\<open>map\<close> with the callback: every callback runs, in the order of the list.\<close>

lemma effect_async_map:
  assumes k: "\<And>ps m'. does this (k ps) (run_call w fuel (Suc (Suc n))) self m' []"
    and f: "fresh (store m)"
  shows "effect this (store m) (concat (map (import_scan_of this sd v (store m)) is))
           (store (exec (async_map (map (\<lambda>i. ScanDependency this sd i v) is) k)
                     (run_call w fuel (Suc (Suc n))) self m))"
  using assms
proof (induction "is" arbitrary: m k)
  case Nil
  from doesD [OF Nil(1) Nil(2)] show ?case by simp
next
  case (Cons i "is")
  let ?h = "run_call w fuel (Suc (Suc n))"
  let ?c = "ScanDependency this sd i v"
  let ?q = "next_pid (store m)"
  let ?m1 = "m\<lparr>store := new_promise (Called ?c) (store m)\<rparr>"
  let ?m2 = "?h ?c ?q ?m1"
  have 1: "effect this (store m) [] (store ?m1)"
    using effect_new_call [OF Cons.prems(2), of this ?c] by simp
  have 2: "effect this (store ?m1) (import_scan_of this sd v (store ?m1) i) (store ?m2)"
    using doesD [OF does_scanDependency [where this = this and sd = sd and i = i and v = v
          and w = w and fuel = fuel and k = n and self = ?q and m = ?m1] effect_fresh [OF 1]]
    by simp
  have 12: "effect this (store m) (import_scan_of this sd v (store ?m1) i) (store ?m2)"
    using effect_trans [OF 1 2] by simp
  have 3: "effect this (store ?m2) (concat (map (import_scan_of this sd v (store ?m2)) is))
             (store (exec (async_map (map (\<lambda>i. ScanDependency this sd i v) is)
                            (\<lambda>ps. k (?q # ps))) ?h self ?m2))"
    by (rule Cons.IH [OF Cons.prems(1) effect_fresh [OF 2]])
  have a: "import_scan_of this sd v (store ?m1) = import_scan_of this sd v (store m)"
    by (rule import_scan_of_effect [OF 1])
  have b: "import_scan_of this sd v (store ?m2) = import_scan_of this sd v (store m)"
    by (rule import_scan_of_effect [OF 12])
  note 4 = effect_trans [OF 12 3, unfolded a b]
  then show ?case by (simp del: run_call.simps)
qed

lemma concat_map_filter:
  "(\<And>x. x \<in> set xs \<Longrightarrow> \<not> P x \<Longrightarrow> g x = []) \<Longrightarrow>
   concat (map g (filter P xs)) = concat (map g xs)"
  by (induction xs) auto

lemma import_scan_of_dependency:
  "i < length (features (the_sdoc s sd)) \<Longrightarrow> \<not> is_dependency (features (the_sdoc s sd) ! i) \<Longrightarrow>
   import_scan_of this sd v s i = []"
  by (cases "features (the_sdoc s sd) ! i") (simp_all add: import_scan_of_def the_feature_def)

lemma import_scans_dependencies:
  "concat (map (import_scan_of this sd v s)
     [i \<leftarrow> [0 ..< length (features (the_sdoc s sd))]. is_dependency (features (the_sdoc s sd) ! i)])
   = import_scans this sd v s"
  unfolding import_scans_def
  by (rule concat_map_filter) (simp add: import_scan_of_dependency)

text \<open>
  \<^verbatim>\<open>_scanDependencies\<close>, run up to its \<^verbatim>\<open>await\<close>: the calls of \<^verbatim>\<open>_scanImport\<close>, \<^verbatim>\<open>_scan\<close> and
  \<^verbatim>\<open>load\<close> that it has made are those of the imports that are not lazy.
\<close>

lemma effect_scanDependencies:
  assumes "fresh (store m)"
  shows "effect this (store m) (import_scans this sd v (store m))
           (store (exec (scanDependencies this sd v) (run_call w fuel (Suc (Suc n))) self m))"
proof -
  have k: "does this (PromiseAll ps (\<lambda>p. await_value p (\<lambda>_. Return Undefined)))
             (run_call w fuel (Suc (Suc n))) self m' []" for ps m'
    by (rule does_PromiseAll) (rule does_await_value)
  have "effect this (store m) (concat (map (import_scan_of this sd v (store m)) is))
           (store (exec (async_map (map (\<lambda>i. ScanDependency this sd i v) is)
                           (\<lambda>ps. PromiseAll ps (\<lambda>p. await_value p (\<lambda>_. Return Undefined))))
                     (run_call w fuel (Suc (Suc n))) self m))" for "is"
    by (rule effect_async_map [OF k assms])
  from this [of "[i \<leftarrow> [0 ..< length (features (the_sdoc (store m) sd))].
                   is_dependency (features (the_sdoc (store m) sd) ! i)]"]
  show ?thesis
    by (simp add: scanDependencies_def Let_def import_scans_dependencies)
qed

lemma reachable_fresh: "fresh (store (run w fuel es (new_Analyzer opts)))"
  using reachable_wf [of w fuel es opts] by (simp add: fresh_def wf_store_def wf_core_def)

text \<open>
  Claim C5: lazy imports are skipped when the dependencies of a scanned document are
  scanned. In every state \<open>m\<close> that the analyzer reaches, \<^verbatim>\<open>_scanDependencies\<close> of the
  scanned document \<open>sd\<close>, run up to its \<^verbatim>\<open>await\<close> with nested calls running at least two
  deep, makes exactly the calls \<^const>\<open>import_scans\<close> of \<^verbatim>\<open>_scanImport\<close>, \<^verbatim>\<open>_scan\<close> and \<^verbatim>\<open>load\<close>: for
  every feature of \<open>sd\<close> that is a \<^verbatim>\<open>ScannedImport\<close> of a type other than
  \<^verbatim>\<open>lazy-html-import\<close>, in the order of the features, \<^verbatim>\<open>_scanImport\<close> of that feature and
  \<^verbatim>\<open>_scan\<close> of its resolved URL with the same visited set, and no other call of
  \<^verbatim>\<open>_scanImport\<close>, \<^verbatim>\<open>_scan\<close> or \<^verbatim>\<open>load\<close>. For a feature
  \<open>i\<close> that is a \<^verbatim>\<open>ScannedImport\<close>: if its type is \<^verbatim>\<open>lazy-html-import\<close>, the callback of
  \<^verbatim>\<open>_scanDependencies\<close> fulfils its promise with \<^verbatim>\<open>null\<close> and does nothing else: it calls no
  function and creates no promise; if its type is anything else, the callback calls
  \<^verbatim>\<open>_scanImport\<close> for the feature and adopts its promise, and \<^verbatim>\<open>_scanImport\<close> calls \<^verbatim>\<open>_scan\<close> on
  the resolved URL of the import with the same visited set and waits for its promise.
\<close>

theorem lazy_import_skipped:
  assumes reach: "m = run wr fuelr es (new_Analyzer opts)"
  shows
    "scans_and_loads_made
       (store (exec (scanDependencies this sd visited) (run_call w fuel (Suc (Suc n))) self m)) =
       scans_and_loads_made (store m) @ import_scans this sd visited (store m) \<and>
     (the_feature (store m) sd i = ScannedImport t u usr sr d \<longrightarrow>
        (t = ''lazy-html-import'' \<longrightarrow>
           exec (scanDependency this sd i visited) h self m = settle self (Fulfilled Null) m) \<and>
        (t \<noteq> ''lazy-html-import'' \<longrightarrow>
           exec (scanDependency this sd i visited) h self m =
             (h (ScanImport this sd i sd visited) (next_pid (store m))
                (m\<lparr>store := new_promise (Called (ScanImport this sd i sd visited)) (store m)\<rparr>))
             \<lparr>microtasks :=
                microtasks (h (ScanImport this sd i sd visited) (next_pid (store m))
                  (m\<lparr>store := new_promise (Called (ScanImport this sd i sd visited)) (store m)\<rparr>))
                @ [ResolveThenable self (next_pid (store m))]\<rparr>) \<and>
        exec (scanImport this sd i ws visited) h self m =
          subscribe (next_pid (store m))
            (Resume (scanImport_resume this sd i ws (resolveUrl (the_context (store m) this) u)) self)
            (h (Scan this (resolveUrl (the_context (store m) this) u) None (Some visited))
               (next_pid (store m))
               (m\<lparr>store := new_promise
                    (Called (Scan this (resolveUrl (the_context (store m) this) u) None (Some visited)))
                    (store m)\<rparr>)))"
proof -
  have f: "fresh (store m)" unfolding reach by (rule reachable_fresh)
  from effect_scanDependencies [OF f, of this sd visited w fuel n self]
  have 1: "scans_and_loads_made
       (store (exec (scanDependencies this sd visited) (run_call w fuel (Suc (Suc n))) self m)) =
       scans_and_loads_made (store m) @ import_scans this sd visited (store m)"
    by (simp add: effect_def)
  have 2: "the_feature (store m) sd i = ScannedImport t u usr sr d \<longrightarrow>
        (t = ''lazy-html-import'' \<longrightarrow>
           exec (scanDependency this sd i visited) h self m = settle self (Fulfilled Null) m) \<and>
        (t \<noteq> ''lazy-html-import'' \<longrightarrow>
           exec (scanDependency this sd i visited) h self m =
             (h (ScanImport this sd i sd visited) (next_pid (store m))
                (m\<lparr>store := new_promise (Called (ScanImport this sd i sd visited)) (store m)\<rparr>))
             \<lparr>microtasks :=
                microtasks (h (ScanImport this sd i sd visited) (next_pid (store m))
                  (m\<lparr>store := new_promise (Called (ScanImport this sd i sd visited)) (store m)\<rparr>))
                @ [ResolveThenable self (next_pid (store m))]\<rparr>) \<and>
        exec (scanImport this sd i ws visited) h self m =
          subscribe (next_pid (store m))
            (Resume (scanImport_resume this sd i ws (resolveUrl (the_context (store m) this) u)) self)
            (h (Scan this (resolveUrl (the_context (store m) this) u) None (Some visited))
               (next_pid (store m))
               (m\<lparr>store := new_promise
                    (Called (Scan this (resolveUrl (the_context (store m) this) u) None (Some visited)))
                    (store m)\<rparr>))"
    by (simp add: scanDependency_def scanImport_def Let_def)
  from 1 2 show ?thesis by (rule conjI)
qed

text \<open>
  \<^verbatim>\<open>c.html\<close> imports \<^verbatim>\<open>d.html\<close> lazily and \<^verbatim>\<open>b.html\<close>. Its analysis has scanned and loaded
  \<^verbatim>\<open>c.html\<close> and \<^verbatim>\<open>b.html\<close> only; scanning its dependencies once more calls \<^verbatim>\<open>_scanImport\<close> and
  \<^verbatim>\<open>_scan\<close> for \<^verbatim>\<open>b.html\<close> only.
\<close>

lemma example_lazy:
  "let m = example_run trace_c in
     the_feature (store m) 0 0 = ScannedImport ''lazy-html-import'' ''d.html'' None None None \<and>
     the_feature (store m) 0 1 = ScannedImport ''html-import'' ''b.html'' None None (Some 1) \<and>
     settled (store m) 0 = Some (Fulfilled (Document 0)) \<and>
     scan_requests m = [''c.html'', ''b.html''] \<and>
     load_requests m = [''c.html'', ''b.html''] \<and>
     resolveUrl (the_context (store m) 0) ''b.html'' = ''b.html'' \<and>
     scans_and_loads_made (store m) =
       [Scan 0 ''c.html'' None None, Load 0 ''c.html'' None, ScanImport 0 0 1 0 0,
        Scan 0 ''b.html'' None (Some 0), Load 0 ''b.html'' None] \<and>
     import_scans 0 0 0 (store m) = [ScanImport 0 0 1 0 0, Scan 0 ''b.html'' None (Some 0)]"
  by code_simp

theorem lazy_import_skipped_witness:
  "example_run trace_c = run example_world 10 trace_c (new_Analyzer example_options) \<and>
   scans_and_loads_made
     (store (exec (scanDependencies 0 0 0) (run_call example_world 10 (Suc (Suc 8))) 37
               (example_run trace_c))) =
     [Scan 0 ''c.html'' None None, Load 0 ''c.html'' None, ScanImport 0 0 1 0 0,
      Scan 0 ''b.html'' None (Some 0), Load 0 ''b.html'' None,
      ScanImport 0 0 1 0 0, Scan 0 ''b.html'' None (Some 0)] \<and>
   the_feature (store (example_run trace_c)) 0 0 =
     ScannedImport ''lazy-html-import'' ''d.html'' None None None \<and>
   exec (scanDependency 0 0 0 0) (run_call example_world 10 10) 37 (example_run trace_c) =
     settle 37 (Fulfilled Null) (example_run trace_c) \<and>
   the_feature (store (example_run trace_c)) 0 1 =
     ScannedImport ''html-import'' ''b.html'' None None (Some 1) \<and>
   exec (scanImport 0 0 1 0 0) (run_call example_world 10 10) 37 (example_run trace_c) =
     subscribe (next_pid (store (example_run trace_c)))
       (Resume (scanImport_resume 0 0 1 0 ''b.html'') 37)
       (run_call example_world 10 10 (Scan 0 ''b.html'' None (Some 0))
          (next_pid (store (example_run trace_c)))
          ((example_run trace_c)\<lparr>store := new_promise
               (Called (Scan 0 ''b.html'' None (Some 0))) (store (example_run trace_c))\<rparr>)) \<and>
   settled (store (example_run trace_c)) 0 = Some (Fulfilled (Document 0)) \<and>
   scan_requests (example_run trace_c) = [''c.html'', ''b.html''] \<and>
   load_requests (example_run trace_c) = [''c.html'', ''b.html'']"
proof -
  note obs = example_lazy [unfolded Let_def]
  have r: "example_run trace_c = run example_world 10 trace_c (new_Analyzer example_options)"
    by (rule example_run_def)
  from obs have f0: "the_feature (store (example_run trace_c)) 0 0 =
      ScannedImport ''lazy-html-import'' ''d.html'' None None None"
    and f1: "the_feature (store (example_run trace_c)) 0 1 =
      ScannedImport ''html-import'' ''b.html'' None None (Some 1)"
    by simp_all
  note a = lazy_import_skipped [OF r, where this = 0 and sd = 0 and visited = 0 and self = 37
      and w = example_world and fuel = 10 and n = 8 and i = 0 and ws = 0
      and h = "run_call example_world 10 10"
      and t = "''lazy-html-import''" and u = "''d.html''" and usr = None and sr = None and d = None]
  note b = lazy_import_skipped [OF r, where this = 0 and sd = 0 and visited = 0 and self = 37
      and w = example_world and fuel = 10 and n = 8 and i = 1 and ws = 0
      and h = "run_call example_world 10 10"
      and t = "''html-import''" and u = "''b.html''" and usr = None and sr = None and d = "Some 1"]
  from a obs have 1: "scans_and_loads_made
     (store (exec (scanDependencies 0 0 0) (run_call example_world 10 (Suc (Suc 8))) 37
               (example_run trace_c))) =
     [Scan 0 ''c.html'' None None, Load 0 ''c.html'' None, ScanImport 0 0 1 0 0,
      Scan 0 ''b.html'' None (Some 0), Load 0 ''b.html'' None,
      ScanImport 0 0 1 0 0, Scan 0 ''b.html'' None (Some 0)]"
    by simp
  from a f0 have 2: "exec (scanDependency 0 0 0 0) (run_call example_world 10 10) 37
      (example_run trace_c) = settle 37 (Fulfilled Null) (example_run trace_c)"
    by simp
  from b f1 obs have 3: "exec (scanImport 0 0 1 0 0) (run_call example_world 10 10) 37
       (example_run trace_c) =
     subscribe (next_pid (store (example_run trace_c)))
       (Resume (scanImport_resume 0 0 1 0 ''b.html'') 37)
       (run_call example_world 10 10 (Scan 0 ''b.html'' None (Some 0))
          (next_pid (store (example_run trace_c)))
          ((example_run trace_c)\<lparr>store := new_promise
               (Called (Scan 0 ''b.html'' None (Some 0))) (store (example_run trace_c))\<rparr>))"
    by simp
  from r 1 2 3 f0 f1 obs show ?thesis by simp
qed

end
